theory Spec2Isabelle
  imports Main "HOL-Library.Sublist"
begin

section \<open>Text primitives\<close>

text \<open>
  Python strings are modelled as \<^typ>\<open>string\<close>. The model covers ASCII text: a character
  outside ASCII is taken to be neither whitespace nor an upper-case letter.
\<close>

definition isspace :: "char \<Rightarrow> bool" where
  \<comment> \<open>\<^verbatim>\<open>str.isspace\<close> and the regular expression class \<^verbatim>\<open>\s\<close> on ASCII:
      TAB, LF, VT, FF, CR, the separators 0x1C..0x1F and the space.\<close>
  "isspace c = (let n = (of_char c :: nat) in (9 \<le> n \<and> n \<le> 13) \<or> (28 \<le> n \<and> n \<le> 32))"

definition to_lower :: "char \<Rightarrow> char" where
  "to_lower c = (let n = (of_char c :: nat) in if 65 \<le> n \<and> n \<le> 90 then char_of (n + 32) else c)"

definition to_upper :: "char \<Rightarrow> char" where
  "to_upper c = (let n = (of_char c :: nat) in if 97 \<le> n \<and> n \<le> 122 then char_of (n - 32) else c)"

definition lower :: "string \<Rightarrow> string" where
  "lower s = map to_lower s"

definition upper :: "string \<Rightarrow> string" where
  "upper s = map to_upper s"

definition rstrip :: "string \<Rightarrow> string" where
  "rstrip s = rev (dropWhile isspace (rev s))"

definition strip :: "string \<Rightarrow> string" where
  \<comment> \<open>\<^verbatim>\<open>str.strip()\<close>: drop the leading and the trailing whitespace.\<close>
  "strip s = rstrip (dropWhile isspace s)"

function collapse_ws :: "string \<Rightarrow> string" where
  \<comment> \<open>\<^verbatim>\<open>re.sub(r"\s+", " ", s)\<close>: every maximal run of whitespace becomes one space.\<close>
  "collapse_ws [] = []"
| "collapse_ws (c # cs) =
     (if isspace c then CHR '' '' # collapse_ws (dropWhile isspace cs)
      else c # collapse_ws cs)"
  by pat_completeness auto
termination
  by (relation "measure length") (auto simp: length_dropWhile_le less_Suc_eq_le)


section \<open>Entity normaliser (src/ingestion/extractor.py)\<close>

text \<open>
  Every entry of \<^verbatim>\<open>COMPANY_SUFFIXES\<close> is a pattern \<^verbatim>\<open>\s+lit\.?$\<close> or \<^verbatim>\<open>\s+lit$\<close>:
  the literal, and whether a full stop may follow it.
\<close>

type_synonym suffix_pattern = "string \<times> bool"

definition COMPANY_SUFFIXES :: "suffix_pattern list" where
  "COMPANY_SUFFIXES =
     [(''inc'', True), (''incorporated'', False), (''corp'', True), (''corporation'', False),
      (''ltd'', True), (''limited'', False), (''llc'', True), (''co'', True),
      (''company'', False), (''plc'', True), (''gmbh'', False), (''ag'', False)]"

definition match_lit :: "string \<Rightarrow> string \<Rightarrow> string option" where
  \<comment> \<open>\<^verbatim>\<open>\s+lit\<close> ending exactly at the end of \<open>s\<close>, letters compared without case
      (\<^verbatim>\<open>re.IGNORECASE\<close>). The search takes the leftmost start, which is the start of the
      whole whitespace run before the literal; the result is what is left of \<open>s\<close>.\<close>
  "match_lit lit s =
     (let k = length s - length lit; pre = take k s in
      if length lit \<le> length s \<and> lower (drop k s) = lower lit \<and> pre \<noteq> [] \<and> isspace (last pre)
      then Some (rstrip pre) else None)"

definition match_end :: "suffix_pattern \<Rightarrow> string \<Rightarrow> string option" where
  \<comment> \<open>The pattern with \<^verbatim>\<open>$\<close> at the end of the string; \<^verbatim>\<open>\.?\<close> is greedy, so the
      full stop is tried first.\<close>
  "match_end p s =
     (case (if snd p \<and> s \<noteq> [] \<and> last s = CHR ''.'' then match_lit (fst p) (butlast s) else None) of
        Some r \<Rightarrow> Some r
      | None \<Rightarrow> match_lit (fst p) s)"

definition sub_suffix :: "suffix_pattern \<Rightarrow> string \<Rightarrow> string" where
  \<comment> \<open>\<^verbatim>\<open>re.sub(pattern, "", s, flags=re.IGNORECASE)\<close>. Without \<^verbatim>\<open>re.MULTILINE\<close>,
      \<^verbatim>\<open>$\<close> matches at the end of the string and also just before a final line feed.\<close>
  "sub_suffix p s =
     (case match_end p s of
        Some r \<Rightarrow> r
      | None \<Rightarrow>
          if s \<noteq> [] \<and> last s = CHR 0x0A
          then (case match_end p (butlast s) of Some r \<Rightarrow> r @ [CHR 0x0A] | None \<Rightarrow> s)
          else s)"

definition normalize_entity_name :: "string \<Rightarrow> string" where
  "normalize_entity_name name =
     (if name = [] then []
      else strip (fold sub_suffix COMPANY_SUFFIXES (collapse_ws (lower (strip name)))))"

definition has_company_suffix :: "string \<Rightarrow> bool" where
  \<comment> \<open>Some pattern of \<^verbatim>\<open>COMPANY_SUFFIXES\<close> still matches \<open>s\<close>.\<close>
  "has_company_suffix s = list_ex (\<lambda>p. sub_suffix p s \<noteq> s) COMPANY_SUFFIXES"

fun spaced :: "string \<Rightarrow> bool" where
  \<comment> \<open>Whitespace occurs only as single spaces, never two in a row.\<close>
  "spaced [] = True"
| "spaced [c] = (isspace c \<longrightarrow> c = CHR '' '')"
| "spaced (c # d # cs) = ((isspace c \<longrightarrow> c = CHR '' '' \<and> \<not> isspace d) \<and> spaced (d # cs))"

definition canonical :: "string \<Rightarrow> bool" where
  \<comment> \<open>Lower case, trimmed and whitespace-collapsed: the form the suffix loop works on.\<close>
  "canonical s =
     (lower s = s \<and> spaced s \<and> (s \<noteq> [] \<longrightarrow> \<not> isspace (hd s) \<and> \<not> isspace (last s)))"


section \<open>Values and exceptions\<close>

text \<open>
  What \<^verbatim>\<open>json.loads\<close> returns. A JSON object is the list of the items of the Python
  dict (keys are unique there). Numbers are integers: a number is only ever tested for
  being zero.
\<close>

datatype json =
    JNull
  | JBool bool
  | JNum int
  | JStr string
  | JArr "json list"
  | JObj "(string \<times> json) list"

datatype exn =
    JSONDecodeError string
  | ValueError string
  | AttributeError string
  | TypeError string
  | KeyError string
  | ImportError string
  | OtherError string

fun exn_str :: "exn \<Rightarrow> string" where
  \<comment> \<open>\<^verbatim>\<open>str(e)\<close>\<close>
  "exn_str (JSONDecodeError m) = m"
| "exn_str (ValueError m) = m"
| "exn_str (AttributeError m) = m"
| "exn_str (TypeError m) = m"
| "exn_str (KeyError m) = m"
| "exn_str (ImportError m) = m"
| "exn_str (OtherError m) = m"

fun truthy :: "json \<Rightarrow> bool" where
  \<comment> \<open>Python truth value of a parsed JSON value.\<close>
  "truthy JNull = False"
| "truthy (JBool b) = b"
| "truthy (JNum n) = (n \<noteq> 0)"
| "truthy (JStr s) = (s \<noteq> [])"
| "truthy (JArr xs) = (xs \<noteq> [])"
| "truthy (JObj kvs) = (kvs \<noteq> [])"

definition dict_get :: "(string \<times> json) list \<Rightarrow> string \<Rightarrow> json \<Rightarrow> json" where
  \<comment> \<open>\<^verbatim>\<open>d.get(key, default)\<close>\<close>
  "dict_get d k dflt = (case map_of d k of Some v \<Rightarrow> v | None \<Rightarrow> dflt)"


section \<open>Knowledge extractor (src/ingestion/extractor.py)\<close>

text \<open>
  The dataclass annotates the name fields as \<^verbatim>\<open>str\<close>, but nothing checks that: a field
  holds whatever value the parsed response has under that key.
\<close>

record Triple =
  subject :: json
  subject_type :: json
  predicate :: json
  object :: json
  object_type :: json
  properties :: json

record ExtractionResult =
  triples :: "Triple list"
  source_text :: string
  error :: "string option"

definition normalize_value :: "json \<Rightarrow> exn + string" where
  \<comment> \<open>\<^verbatim>\<open>normalize_entity_name\<close> on a run-time value: \<^verbatim>\<open>if not name: return ""\<close>
      accepts every falsy value; a truthy value that is not a string has no \<^verbatim>\<open>strip\<close>.\<close>
  "normalize_value v =
     (if \<not> truthy v then Inr []
      else case v of
             JStr s \<Rightarrow> Inr (normalize_entity_name s)
           | _ \<Rightarrow> Inl (AttributeError ''object has no attribute strip''))"

definition normalized_or_raw :: "json \<Rightarrow> exn + json" where
  \<comment> \<open>\<^verbatim>\<open>normalize_entity_name(x) or x\<close>\<close>
  "normalized_or_raw v =
     (case normalize_value v of
        Inl e \<Rightarrow> Inl e
      | Inr n \<Rightarrow> Inr (if n \<noteq> [] then JStr n else v))"

definition upper_snake :: "json \<Rightarrow> exn + json" where
  \<comment> \<open>\<^verbatim>\<open>predicate.upper().replace(" ", "_")\<close>\<close>
  "upper_snake v =
     (case v of
        JStr p \<Rightarrow> Inr (JStr (map (\<lambda>c. if c = CHR '' '' then CHR ''_'' else c) (upper p)))
      | _ \<Rightarrow> Inl (AttributeError ''object has no attribute upper''))"

definition raw_triple :: "(string \<times> json) list \<Rightarrow> Triple" where
  \<comment> \<open>The first \<^verbatim>\<open>Triple(...)\<close> of the loop body, with the defaults of \<^verbatim>\<open>item.get\<close>.\<close>
  "raw_triple d =
     \<lparr>subject = dict_get d ''subject'' (JStr []),
      subject_type = dict_get d ''subject_type'' (JStr ''Entity''),
      predicate = dict_get d ''predicate'' (JStr ''RELATED_TO''),
      object = dict_get d ''object'' (JStr []),
      object_type = dict_get d ''object_type'' (JStr ''Entity''),
      properties = dict_get d ''properties'' (JObj [])\<rparr>"

definition normalize_triple :: "Triple \<Rightarrow> exn + Triple" where
  \<comment> \<open>The second \<^verbatim>\<open>Triple(...)\<close>; the keyword arguments are evaluated in order, so the
      first failing one decides the exception.\<close>
  "normalize_triple t =
     (case normalized_or_raw (subject t) of
        Inl e \<Rightarrow> Inl e
      | Inr s \<Rightarrow>
          (case upper_snake (predicate t) of
             Inl e \<Rightarrow> Inl e
           | Inr p \<Rightarrow>
               (case normalized_or_raw (object t) of
                  Inl e \<Rightarrow> Inl e
                | Inr ob \<Rightarrow> Inr (t\<lparr>subject := s, predicate := p, object := ob\<rparr>))))"

definition make_triple :: "bool \<Rightarrow> json \<Rightarrow> exn + Triple" where
  "make_triple norm item =
     (case item of
        JObj d \<Rightarrow> (if norm then normalize_triple (raw_triple d) else Inr (raw_triple d))
      | _ \<Rightarrow> Inl (AttributeError ''object has no attribute get''))"

fun parse_items :: "bool \<Rightarrow> json list \<Rightarrow> exn + Triple list" where
  \<comment> \<open>The \<^verbatim>\<open>for item in ...\<close> loop: an exception at one item ends the loop; an item is
      appended when \<^verbatim>\<open>triple.subject and triple.object\<close>.\<close>
  "parse_items norm [] = Inr []"
| "parse_items norm (item # items) =
     (case make_triple norm item of
        Inl e \<Rightarrow> Inl e
      | Inr t \<Rightarrow>
          (case parse_items norm items of
             Inl e \<Rightarrow> Inl e
           | Inr ts \<Rightarrow> Inr (if truthy (subject t) \<and> truthy (object t) then t # ts else ts)))"

definition iter_items :: "json \<Rightarrow> exn + json list" where
  \<comment> \<open>What \<^verbatim>\<open>for item in v\<close> iterates over: the elements of a list, the characters of a
      string, the keys of a dict; anything else is not iterable.\<close>
  "iter_items v =
     (case v of
        JArr xs \<Rightarrow> Inr xs
      | JStr s \<Rightarrow> Inr (map (\<lambda>c. JStr [c]) s)
      | JObj d \<Rightarrow> Inr (map (\<lambda>kv. JStr (fst kv)) d)
      | _ \<Rightarrow> Inl (TypeError ''object is not iterable''))"

definition parse_data :: "bool \<Rightarrow> json \<Rightarrow> exn + Triple list" where
  \<comment> \<open>\<^verbatim>\<open>_parse_response\<close> from the parsed \<^verbatim>\<open>data\<close> on (lines 254 to 279).\<close>
  "parse_data norm data =
     (case data of
        JObj d \<Rightarrow>
          (case iter_items (dict_get d ''triples'' (JArr [])) of
             Inl e \<Rightarrow> Inl e
           | Inr items \<Rightarrow> parse_items norm items)
      | _ \<Rightarrow> Inl (AttributeError ''object has no attribute get''))"

definition json_match :: "string \<Rightarrow> string option" where
  \<comment> \<open>\<^verbatim>\<open>re.search(r"\{[\s\S]*\}", response)\<close>: from the first opening brace to the last
      closing brace after it (the star is greedy).\<close>
  "json_match r =
     (let t = dropWhile (\<lambda>c. c \<noteq> CHR ''{'') r in
      if t = [] then None
      else let u = rev (dropWhile (\<lambda>c. c \<noteq> CHR ''}'') (rev (tl t))) in
           if u = [] then None else Some (CHR ''{'' # u))"

definition parse_response :: "bool \<Rightarrow> (string \<Rightarrow> exn + json) \<Rightarrow> string \<Rightarrow> exn + Triple list" where
  \<comment> \<open>\<^verbatim>\<open>EntityExtractor._parse_response\<close>; \<open>loads\<close> stands for \<^verbatim>\<open>json.loads\<close>.\<close>
  "parse_response norm loads response =
     (case json_match response of
        None \<Rightarrow> Inl (ValueError (''No JSON object found in response: '' @ take 200 response))
      | Some json_str \<Rightarrow>
          (case loads json_str of
             Inl e \<Rightarrow> Inl e
           | Inr data \<Rightarrow> parse_data norm data))"

record EntityExtractor =
  normalize :: bool
  llm_invoke :: "string \<Rightarrow> exn + string"
  prompt_head :: string
  prompt_tail :: string

definition build_prompt :: "EntityExtractor \<Rightarrow> string \<Rightarrow> string" where
  \<comment> \<open>\<^verbatim>\<open>EXTRACTION_PROMPT_TEMPLATE.format(schema=..., text=text)\<close>: the fixed text before
      and after the place of \<^verbatim>\<open>{text}\<close>.\<close>
  "build_prompt ex text = prompt_head ex @ text @ prompt_tail ex"

definition try_extract :: "EntityExtractor \<Rightarrow> (string \<Rightarrow> exn + json) \<Rightarrow> string \<Rightarrow> exn + Triple list" where
  \<comment> \<open>The body of the \<^verbatim>\<open>try\<close> block of \<^verbatim>\<open>extract\<close>.\<close>
  "try_extract ex loads text =
     (case llm_invoke ex (build_prompt ex text) of
        Inl e \<Rightarrow> Inl e
      | Inr response \<Rightarrow> parse_response (normalize ex) loads response)"

definition EntityExtractor_extract :: "EntityExtractor \<Rightarrow> (string \<Rightarrow> exn + json) \<Rightarrow> string \<Rightarrow> ExtractionResult" where
  \<comment> \<open>\<^verbatim>\<open>EntityExtractor.extract\<close>: the handlers are tried in the order of the source;
      \<^verbatim>\<open>JSONDecodeError\<close> is a subclass of \<^verbatim>\<open>ValueError\<close> and is caught first.\<close>
  "EntityExtractor_extract ex loads text =
     (let result = \<lparr>triples = [], source_text = text, error = None\<rparr> in
      case try_extract ex loads text of
        Inr ts \<Rightarrow> result\<lparr>triples := ts\<rparr>
      | Inl (JSONDecodeError m) \<Rightarrow>
          result\<lparr>error := Some (''Failed to parse LLM response as JSON: '' @ m)\<rparr>
      | Inl (ValueError m) \<Rightarrow> result\<lparr>error := Some m\<rparr>
      | Inl e \<Rightarrow> result\<lparr>error := Some (''Extraction failed: '' @ exn_str e)\<rparr>)"

definition raw_empty :: "json \<Rightarrow> bool" where
  \<comment> \<open>An item whose \<^verbatim>\<open>subject\<close> or \<^verbatim>\<open>object\<close> is missing or empty as it stands in the
      response.\<close>
  "raw_empty item =
     (case item of
        JObj d \<Rightarrow> \<not> truthy (subject (raw_triple d)) \<or> \<not> truthy (object (raw_triple d))
      | _ \<Rightarrow> False)"


section \<open>Hybrid retriever (src/retriever/hybrid.py) and its caller (src/app/main.py)\<close>

text \<open>
  The module of the retriever is not among the sources; its result type is used by
  \<^verbatim>\<open>chains.py\<close>, its \<^verbatim>\<open>retrieve\<close> is called by \<^verbatim>\<open>main.py\<close>. The definitions below that
  say so are written from section 4.5 of the specification.
\<close>

record GraphPath =
  path_nodes :: "string list"
  path_rels :: "string list"

record RetrievalResult =
  query :: string
  entities :: "string list"
  vector_chunks :: "string list"
  graph_paths :: "GraphPath list"
  graph_context :: string

record retriever_deps =
  mentions :: "string \<Rightarrow> string list"
  find_paths :: "string \<Rightarrow> string \<Rightarrow> nat \<Rightarrow> exn + GraphPath list"
  find_neighbors :: "string \<Rightarrow> nat \<Rightarrow> exn + GraphPath list"
  query_similar :: "string \<Rightarrow> nat \<Rightarrow> exn + string list"

definition hops :: "GraphPath \<Rightarrow> nat" where
  \<comment> \<open>Modelled from the spec: the length of a path is the number of its relationship labels.\<close>
  "hops gp = length (path_rels gp)"

fun render_path :: "string list \<Rightarrow> string list \<Rightarrow> string" where
  \<comment> \<open>Modelled from the spec: the canonical form \<^verbatim>\<open>A -[REL]-> B -[REL2]-> C\<close>.\<close>
  "render_path [] rs = []"
| "render_path (n # ns) [] = n"
| "render_path (n # ns) (r # rs) = n @ '' -['' @ r @ '']-> '' @ render_path ns rs"

fun join_lines :: "string list \<Rightarrow> string" where
  "join_lines [] = []"
| "join_lines [x] = x"
| "join_lines (x # y # ys) = x @ [CHR 0x0A] @ join_lines (y # ys)"

fun entity_pairs :: "string list \<Rightarrow> (string \<times> string) list" where
  \<comment> \<open>Modelled from the spec: every pair of distinct candidate entities (the specification
      leaves the choice of pairs open; all pairs, in order, are taken here).\<close>
  "entity_pairs [] = []"
| "entity_pairs (x # xs) = map (\<lambda>y. (x, y)) xs @ entity_pairs xs"

fun collect :: "(exn + 'a list) list \<Rightarrow> exn + 'a list" where
  \<comment> \<open>The results of a run of queries; the first failure ends the run.\<close>
  "collect [] = Inr []"
| "collect (q # qs) =
     (case q of
        Inl e \<Rightarrow> Inl e
      | Inr xs \<Rightarrow> (case collect qs of Inl e \<Rightarrow> Inl e | Inr ys \<Rightarrow> Inr (xs @ ys)))"

definition graph_search :: "retriever_deps \<Rightarrow> string list \<Rightarrow> exn + GraphPath list" where
  \<comment> \<open>Modelled from the spec: paths up to 3 hops between the pairs of entities; with fewer
      than two entities, the neighbours of the single entity up to 2 hops; ordered by
      ascending path length.\<close>
  "graph_search deps es =
     (case (case es of
              [] \<Rightarrow> Inr []
            | [e] \<Rightarrow> find_neighbors deps e 2
            | _ \<Rightarrow> collect (map (\<lambda>ab. find_paths deps (fst ab) (snd ab) 3) (entity_pairs es))) of
        Inl e \<Rightarrow> Inl e
      | Inr ps \<Rightarrow> Inr (sort_key hops ps))"

definition retrieve :: "retriever_deps \<Rightarrow> string \<Rightarrow> bool \<Rightarrow> exn + string list \<times> RetrievalResult" where
  \<comment> \<open>Modelled from the spec: \<^verbatim>\<open>retrieve(query, includeGraph)\<close> of section 4.5. A failure of
      the graph traversal gives no paths and a warning event (the first component of the
      result); a failure of the vector query has no fallback and is raised.\<close>
  "retrieve deps q include_graph =
     (let es = remdups (map normalize_entity_name (mentions deps q));
          (warnings, paths) =
            (if include_graph
             then (case graph_search deps es of
                     Inl e \<Rightarrow> ([''graph traversal failed: '' @ exn_str e], [])
                   | Inr ps \<Rightarrow> ([], ps))
             else ([], []))
      in case query_similar deps q 5 of
           Inl e \<Rightarrow> Inl e
         | Inr chunks \<Rightarrow>
             Inr (warnings,
                  \<lparr>query = q, entities = es, vector_chunks = chunks, graph_paths = paths,
                   graph_context =
                     join_lines (map (\<lambda>gp. render_path (path_nodes gp) (path_rels gp)) paths)\<rparr>))"

definition main_retrieval ::
  "(string \<Rightarrow> bool \<Rightarrow> exn + 'r) \<Rightarrow> string \<Rightarrow> bool \<Rightarrow> exn + string list \<times> 'r" where
  \<comment> \<open>\<^verbatim>\<open>main\<close>, lines 300 to 305: the first call is inside \<^verbatim>\<open>try\<close>; on any exception the
      page shows a warning and calls again without the graph, outside the \<^verbatim>\<open>try\<close>.\<close>
  "main_retrieval retrieve_fn prompt use_graph =
     (case retrieve_fn prompt use_graph of
        Inr result \<Rightarrow> Inr ([], result)
      | Inl e \<Rightarrow>
          (case retrieve_fn prompt False of
             Inr result \<Rightarrow>
               Inr ([''Graph retrieval failed, using vector-only: '' @ exn_str e], result)
           | Inl e' \<Rightarrow> Inl e'))"

definition unreachable_graph_deps :: retriever_deps where
  \<comment> \<open>A graph store that cannot be reached, a vector store that answers.\<close>
  "unreachable_graph_deps =
     \<lparr>mentions = (\<lambda>q. [''TechFlow Inc.'', ''Singapore'']),
      find_paths = (\<lambda>a b n. Inl (OtherError ''ServiceUnavailable'')),
      find_neighbors = (\<lambda>a n. Inl (OtherError ''ServiceUnavailable'')),
      query_similar = (\<lambda>q k. Inr [''TechFlow operates a plant in Singapore.''])\<rparr>"


section \<open>Reasoning synthesiser (src/llm/chains.py)\<close>

record ReasoningResponse =
  answer :: string
  entities :: string
  reasoning :: string
  raw_response :: string

fun split_first :: "string \<Rightarrow> string \<Rightarrow> (string \<times> string) option" where
  \<comment> \<open>The text before and after the first occurrence of \<open>pat\<close>.\<close>
  "split_first pat [] = (if pat = [] then Some ([], []) else None)"
| "split_first pat (c # cs) =
     (if take (length pat) (c # cs) = pat then Some ([], drop (length pat) (c # cs))
      else map_option (\<lambda>ba. (c # fst ba, snd ba)) (split_first pat cs))"

definition contains :: "string \<Rightarrow> string \<Rightarrow> bool" where
  \<comment> \<open>\<^verbatim>\<open>pat in s\<close>\<close>
  "contains pat s = (split_first pat s \<noteq> None)"

definition search_between :: "string \<Rightarrow> string \<Rightarrow> string \<Rightarrow> string option" where
  \<comment> \<open>\<^verbatim>\<open>re.search(open + "(.*?)" + close, s, re.DOTALL)\<close>, group 1: the text between the
      first opening tag and the first closing tag after it.\<close>
  "search_between opn cls s =
     (case split_first opn s of
        None \<Rightarrow> None
      | Some (before, rest) \<Rightarrow>
          (case split_first cls rest of
             None \<Rightarrow> None
           | Some (mid, after) \<Rightarrow> Some mid))"

definition parse_from_response :: "string \<Rightarrow> ReasoningResponse" where
  \<comment> \<open>\<^verbatim>\<open>ReasoningResponse.parse_from_response\<close>. Without an answer section the answer is
      element 1 of \<^verbatim>\<open>re.split(r"</reasoning>", response)\<close>, when there is one.\<close>
  "parse_from_response response =
     (let entities = (case search_between ''<entities>'' ''</entities>'' response of
                        Some m \<Rightarrow> strip m | None \<Rightarrow> []);
          reasoning = (case search_between ''<reasoning>'' ''</reasoning>'' response of
                         Some m \<Rightarrow> strip m | None \<Rightarrow> []);
          answer =
            (case search_between ''<answer>'' ''</answer>'' response of
               Some m \<Rightarrow> strip m
             | None \<Rightarrow>
                 (case split_first ''</reasoning>'' response of
                    None \<Rightarrow> response
                  | Some (before, rest) \<Rightarrow>
                      (case split_first ''</reasoning>'' rest of
                         None \<Rightarrow> strip rest
                       | Some (mid, after) \<Rightarrow> strip mid)))
      in \<lparr>answer = answer, entities = entities, reasoning = reasoning, raw_response = response\<rparr>)"


section \<open>Embedding function (src/database/vector_db.py)\<close>

text \<open>
  An embedding is a list of floats; nothing is computed on them, so the element type is
  any type with a zero. \<open>client\<close> is the lazily loaded property (which raises
  \<^verbatim>\<open>ImportError\<close> without the package); its \<^verbatim>\<open>embeddings\<close> call returns a response dict.
\<close>

definition embed_one ::
  "(exn + (string \<Rightarrow> exn + (string \<times> 'a list) list)) \<Rightarrow> string \<Rightarrow> exn + 'a list" where
  \<comment> \<open>The body of the \<^verbatim>\<open>try\<close>: \<^verbatim>\<open>self.client.embeddings(...)["embedding"]\<close>.\<close>
  "embed_one client text =
     (case client of
        Inl e \<Rightarrow> Inl e
      | Inr embeddings \<Rightarrow>
          (case embeddings text of
             Inl e \<Rightarrow> Inl e
           | Inr response \<Rightarrow>
               (case map_of response ''embedding'' of
                  None \<Rightarrow> Inl (KeyError ''embedding'')
                | Some v \<Rightarrow> Inr v)))"

definition OllamaEmbeddings_call ::
  "(exn + (string \<Rightarrow> exn + (string \<times> ('a::zero) list) list)) \<Rightarrow> string list \<Rightarrow> 'a list list" where
  \<comment> \<open>\<^verbatim>\<open>OllamaEmbeddings.__call__\<close>: the loop appends one vector for each text.\<close>
  "OllamaEmbeddings_call client input =
     fold (\<lambda>text embeddings.
             embeddings @ [case embed_one client text of
                             Inr v \<Rightarrow> v
                           | Inl e \<Rightarrow> replicate 768 0])
          input []"


section \<open>Graph store (src/database/graph_db.py)\<close>

text \<open>
  The manager sends Cypher text to the graph engine. The engine is modelled by the part of
  its behaviour that the queries of this module rely on: a store of nodes and relationships,
  pattern matching on a label and a property map, and \<^verbatim>\<open>MERGE\<close> as match-or-create.
  A property dict is the list of its items; only the value found first under a key counts.
\<close>

type_synonym props = "(string \<times> json) list"

record node =
  node_id :: nat
  labels :: "string list"
  node_props :: props

record edge =
  src :: nat
  dst :: nat
  rel_type :: string
  rel_props :: props

record graph =
  nodes :: "node list"
  edges :: "edge list"

definition props_match :: "props \<Rightarrow> props \<Rightarrow> bool" where
  \<comment> \<open>Every key of the pattern has the pattern's value in \<open>ps\<close>.\<close>
  "props_match pattern ps = list_all (\<lambda>k. map_of ps k = map_of pattern k) (map fst pattern)"

definition node_matches :: "string \<Rightarrow> props \<Rightarrow> node \<Rightarrow> bool" where
  \<comment> \<open>The node pattern \<^verbatim>\<open>(n:Label {k: $k, ...})\<close>\<close>
  "node_matches l pattern n = (l \<in> set (labels n) \<and> props_match pattern (node_props n))"

definition match_nodes :: "graph \<Rightarrow> string \<Rightarrow> props \<Rightarrow> nat list" where
  "match_nodes g l pattern = map node_id (filter (node_matches l pattern) (nodes g))"

definition fresh_id :: "graph \<Rightarrow> nat" where
  "fresh_id g = Suc (fold max (map node_id (nodes g)) 0)"

definition set_props :: "props \<Rightarrow> props \<Rightarrow> props" where
  \<comment> \<open>\<^verbatim>\<open>SET x.k = v, ...\<close> for the items of a dict, in order.\<close>
  "set_props new ps = fold (\<lambda>kv acc. kv # filter (\<lambda>e. fst e \<noteq> fst kv) acc) new ps"

definition merge_pattern :: "graph \<Rightarrow> string \<Rightarrow> props \<Rightarrow> graph \<times> nat list" where
  \<comment> \<open>\<^verbatim>\<open>MERGE (n:Label {...})\<close>: bind every matching node; when there is none, create one
      node with this label and these properties and bind it.\<close>
  "merge_pattern g l pattern =
     (let ms = match_nodes g l pattern in
      if ms \<noteq> [] then (g, ms)
      else (g\<lparr>nodes := nodes g @ [\<lparr>node_id = fresh_id g, labels = [l], node_props = pattern\<rparr>]\<rparr>,
            [fresh_id g]))"

definition merge_node ::
  "graph \<Rightarrow> string \<Rightarrow> props \<Rightarrow> props option \<Rightarrow> props option \<Rightarrow> graph \<times> node option" where
  \<comment> \<open>\<^verbatim>\<open>GraphDatabaseManager.merge_node\<close>: \<^verbatim>\<open>ON CREATE SET\<close> applies to a node the
      statement creates, \<^verbatim>\<open>ON MATCH SET\<close> to every node it matches; an absent or empty
      dict adds no clause. The result is the first record.\<close>
  "merge_node g label match_props on_create on_match =
     (if match_nodes g label match_props = []
      then (let n = \<lparr>node_id = fresh_id g, labels = [label],
                     node_props = set_props (case on_create of None \<Rightarrow> [] | Some c \<Rightarrow> c) match_props\<rparr>
            in (g\<lparr>nodes := nodes g @ [n]\<rparr>, Some n))
      else (let upd = (\<lambda>n. if node_matches label match_props n
                            then n\<lparr>node_props := set_props (case on_match of None \<Rightarrow> [] | Some m \<Rightarrow> m)
                                                     (node_props n)\<rparr>
                            else n);
                ns = map upd (nodes g)
            in (g\<lparr>nodes := ns\<rparr>,
                case filter (node_matches label match_props) (nodes g) of
                  [] \<Rightarrow> None | n # _ \<Rightarrow> Some (upd n))))"

definition joins :: "nat \<Rightarrow> string \<Rightarrow> nat \<Rightarrow> edge \<Rightarrow> bool" where
  \<comment> \<open>The relationship pattern \<^verbatim>\<open>(a)-[r:TYPE]->(b)\<close> for bound \<open>a\<close> and \<open>b\<close>.\<close>
  "joins a t b e = (src e = a \<and> rel_type e = t \<and> dst e = b)"

definition merge_edge :: "string \<Rightarrow> props \<Rightarrow> nat \<times> nat \<Rightarrow> graph \<Rightarrow> graph" where
  \<comment> \<open>\<^verbatim>\<open>MERGE (a)-[r:TYPE]->(b) SET r.k = v, ...\<close> for one row: create the relationship
      when the two nodes have none of this type in this direction, then set the properties on
      every bound relationship.\<close>
  "merge_edge t rp ab g =
     (if list_ex (joins (fst ab) t (snd ab)) (edges g)
      then g\<lparr>edges := map (\<lambda>e. if joins (fst ab) t (snd ab) e
                                 then e\<lparr>rel_props := set_props rp (rel_props e)\<rparr> else e)
                           (edges g)\<rparr>
      else g\<lparr>edges := edges g @ [\<lparr>src = fst ab, dst = snd ab, rel_type = t,
                                     rel_props = set_props rp []\<rparr>]\<rparr>)"

definition merge_relationship ::
  "graph \<Rightarrow> string \<Rightarrow> props \<Rightarrow> string \<Rightarrow> props \<Rightarrow> string \<Rightarrow> props option \<Rightarrow> graph" where
  \<comment> \<open>\<^verbatim>\<open>GraphDatabaseManager.merge_relationship\<close>: the three \<^verbatim>\<open>MERGE\<close> clauses in
      the order of the query; the last one runs for every row of bound endpoints.\<close>
  "merge_relationship g from_label from_props to_label to_props rtype rprops =
     (let (g1, as) = merge_pattern g from_label from_props;
          (g2, bs) = merge_pattern g1 to_label to_props
      in fold (merge_edge rtype (case rprops of None \<Rightarrow> [] | Some rp \<Rightarrow> rp))
              (List.product as bs) g2)"

definition node_count :: "graph \<Rightarrow> nat" where
  "node_count g = length (nodes g)"

definition edge_count :: "graph \<Rightarrow> nat" where
  "edge_count g = length (edges g)"

definition edges_between :: "graph \<Rightarrow> nat \<Rightarrow> string \<Rightarrow> nat \<Rightarrow> nat" where
  \<comment> \<open>How many relationships of one type lead from one node to another.\<close>
  "edges_between g a t b = length (filter (joins a t b) (edges g))"

text \<open>
  Paths for \<^verbatim>\<open>MATCH path = (a ...)-[*1..max_hops]-(b ...)\<close>: the pattern has no
  direction, and a path uses no relationship twice. A path is the list of its node ids and
  the list of the positions of its relationships in the store.
\<close>

type_synonym path = "nat list \<times> nat list"

definition extend_path :: "graph \<Rightarrow> path \<Rightarrow> path list" where
  "extend_path g p =
     concat (map (\<lambda>i. let e = edges g ! i; x = last (fst p) in
                       if i \<in> set (snd p) then []
                       else if src e = x then [(fst p @ [dst e], snd p @ [i])]
                       else if dst e = x then [(fst p @ [src e], snd p @ [i])]
                       else [])
                 [0..<length (edges g)])"

fun paths_of_length :: "graph \<Rightarrow> nat \<Rightarrow> nat \<Rightarrow> path list" where
  "paths_of_length g start 0 = [([start], [])]"
| "paths_of_length g start (Suc k) = concat (map (extend_path g) (paths_of_length g start k))"

record path_row =
  row_nodes :: "nat list"
  relationships :: "string list"
  path_length :: nat

definition match_paths :: "graph \<Rightarrow> string \<Rightarrow> props \<Rightarrow> string \<Rightarrow> props \<Rightarrow> nat \<Rightarrow> path_row list" where
  \<comment> \<open>The rows of the \<^verbatim>\<open>MATCH ... RETURN\<close> part, before ordering.\<close>
  "match_paths g from_label from_props to_label to_props max_hops =
     concat (map (\<lambda>a.
       concat (map (\<lambda>k.
         map (\<lambda>p. \<lparr>row_nodes = fst p,
                     relationships = map (\<lambda>i. rel_type (edges g ! i)) (snd p),
                     path_length = length (snd p)\<rparr>)
             (filter (\<lambda>p. last (fst p) \<in> set (match_nodes g to_label to_props))
                     (paths_of_length g a k)))
         [1..<Suc max_hops]))
       (match_nodes g from_label from_props))"

definition get_paths_between ::
  "graph \<Rightarrow> string \<Rightarrow> props \<Rightarrow> string \<Rightarrow> props \<Rightarrow> int \<Rightarrow> exn + path_row list" where
  \<comment> \<open>\<^verbatim>\<open>GraphDatabaseManager.get_paths_between\<close>: \<^verbatim>\<open>ORDER BY path_length LIMIT 10\<close>.
      The hop bound is written into the query text; a negative one is not Cypher.\<close>
  "get_paths_between g from_label from_props to_label to_props max_hops =
     (if max_hops < 0 then Inl (OtherError ''CypherSyntaxError'')
      else Inr (take 10 (sort_key path_length
                  (match_paths g from_label from_props to_label to_props (nat max_hops)))))"

definition edge_key :: "edge \<Rightarrow> nat \<times> string \<times> nat" where
  \<comment> \<open>What identifies a relationship for \<^verbatim>\<open>MERGE\<close>: start node, type, end node.\<close>
  "edge_key e = (src e, rel_type e, dst e)"

definition edge_keys :: "graph \<Rightarrow> (nat \<times> string \<times> nat) list" where
  "edge_keys g = map edge_key (edges g)"

definition ins_key :: "'a \<Rightarrow> 'a list \<Rightarrow> 'a list" where
  "ins_key k ks = (if k \<in> set ks then ks else ks @ [k])"


section \<open>Vector store (src/database/vector_db.py)\<close>

text \<open>
  A collection holds one entry for each id: the document and its metadata.
  \<^verbatim>\<open>add_documents\<close> hands the entries to the \<^verbatim>\<open>add\<close> operation of the collection. What
  that operation does with an id the collection already holds is the vector store's choice
  (keep the old entry, replace it, or refuse with an error); the model takes it as a
  parameter.
\<close>

datatype dup_policy = Ignore | Overwrite | Reject

type_synonym collection = "(string \<times> string \<times> props) list"

definition collection_add :: "dup_policy \<Rightarrow> collection \<Rightarrow> string \<times> string \<times> props \<Rightarrow> exn + collection" where
  "collection_add policy coll entry =
     (if fst entry \<in> set (map fst coll)
      then (case policy of
              Ignore \<Rightarrow> Inr coll
            | Overwrite \<Rightarrow> Inr (map (\<lambda>e. if fst e = fst entry then entry else e) coll)
            | Reject \<Rightarrow> Inl (OtherError ''ID already exists''))
      else Inr (coll @ [entry]))"

definition get_document_count :: "collection \<Rightarrow> nat" where
  "get_document_count coll = length coll"


section \<open>Ingestion pipeline (src/ingestion/pipeline.py)\<close>

record IngestionResult =
  success :: bool
  nodes_created :: nat
  relationships_created :: nat
  documents_added :: nat
  errors :: "string list"

record stores =
  graph_store :: graph
  vector_store :: collection

datatype request = MergeNode json json | MergeRelationship Triple

text \<open>
  The pipeline and what surrounds it: the extractor it calls; whether a graph manager was
  passed in (otherwise it opens one for the call and closes it after the loop); the ways
  the graph engine and the vector store can fail; the digest function.
\<close>

record IngestionPipeline =
  extractor :: "string \<Rightarrow> ExtractionResult"
  graph_manager_given :: bool
  connect_error :: "exn option"
  close_error :: "exn option"
  graph_rejects :: "request \<Rightarrow> exn option"
  md5_hexdigest :: "string \<Rightarrow> string"
  add_policy :: dup_policy
  vector_error :: "exn option"

definition generate_doc_id :: "IngestionPipeline \<Rightarrow> string \<Rightarrow> string" where
  \<comment> \<open>\<^verbatim>\<open>_generate_doc_id\<close>: \<^verbatim>\<open>"doc_" + hashlib.md5(text.encode()).hexdigest()[:12]\<close>\<close>
  "generate_doc_id p text = ''doc_'' @ take 12 (md5_hexdigest p text)"

fun label_text :: "json \<Rightarrow> string option" where
  \<comment> \<open>A value written into the query text in the place of a label or a relationship type.
      A number, a list or a dict there gives text that is not Cypher.\<close>
  "label_text (JStr s) = Some s"
| "label_text JNull = Some ''None''"
| "label_text (JBool b) = Some (if b then ''True'' else ''False'')"
| "label_text (JNum n) = None"
| "label_text (JArr xs) = None"
| "label_text (JObj d) = None"

definition rel_props_arg :: "json \<Rightarrow> exn + props option" where
  \<comment> \<open>\<^verbatim>\<open>rel_props=triple.properties or None\<close>, then \<^verbatim>\<open>if rel_props: ... rel_props.keys()\<close>\<close>
  "rel_props_arg v =
     (if \<not> truthy v then Inr None
      else case v of
             JObj d \<Rightarrow> Inr (Some d)
           | _ \<Rightarrow> Inl (AttributeError ''object has no attribute keys''))"

definition create_node :: "IngestionPipeline \<Rightarrow> graph \<Rightarrow> json \<Rightarrow> json \<Rightarrow> graph \<times> bool" where
  \<comment> \<open>\<^verbatim>\<open>_create_node\<close>: any exception of \<^verbatim>\<open>merge_node\<close> is logged and gives False.\<close>
  "create_node p g label name =
     (case graph_rejects p (MergeNode label name) of
        Some e \<Rightarrow> (g, False)
      | None \<Rightarrow>
          (case label_text label of
             None \<Rightarrow> (g, False)
           | Some l \<Rightarrow> (fst (merge_node g l [(''name'', name)] None None), True)))"

definition create_relationship :: "IngestionPipeline \<Rightarrow> graph \<Rightarrow> Triple \<Rightarrow> graph \<times> bool" where
  \<comment> \<open>\<^verbatim>\<open>_create_relationship\<close>: any exception of \<^verbatim>\<open>merge_relationship\<close> is logged and
      gives False.\<close>
  "create_relationship p g t =
     (case graph_rejects p (MergeRelationship t) of
        Some e \<Rightarrow> (g, False)
      | None \<Rightarrow>
          (case (label_text (subject_type t), label_text (object_type t),
                 label_text (predicate t), rel_props_arg (properties t)) of
             (Some fl, Some tlab, Some rt, Inr rp) \<Rightarrow>
               (merge_relationship g fl [(''name'', subject t)] tlab [(''name'', object t)] rt rp,
                True)
           | _ \<Rightarrow> (g, False)))"

definition ingest_triple :: "IngestionPipeline \<Rightarrow> Triple \<Rightarrow> graph \<times> IngestionResult \<Rightarrow> graph \<times> IngestionResult" where
  \<comment> \<open>The body of the loop over the triples.\<close>
  "ingest_triple p t gr =
     (let (g1, ok1) = create_node p (fst gr) (subject_type t) (subject t);
          r1 = (if ok1 then (snd gr)\<lparr>nodes_created := nodes_created (snd gr) + 1\<rparr> else snd gr);
          (g2, ok2) = create_node p g1 (object_type t) (object t);
          r2 = (if ok2 then r1\<lparr>nodes_created := nodes_created r1 + 1\<rparr> else r1);
          (g3, ok3) = create_relationship p g2 t;
          r3 = (if ok3 then r2\<lparr>relationships_created := relationships_created r2 + 1\<rparr> else r2)
      in (g3, r3))"

definition graph_step :: "IngestionPipeline \<Rightarrow> Triple list \<Rightarrow> graph \<times> IngestionResult \<Rightarrow> exn + graph \<times> IngestionResult" where
  \<comment> \<open>Step 2 of \<^verbatim>\<open>ingest_text\<close>. The manager is opened before the \<^verbatim>\<open>try\<close>, so a failure
      to open it leaves \<^verbatim>\<open>ingest_text\<close> as an exception; a failure when the \<^verbatim>\<open>with\<close>
      block closes it is caught.\<close>
  "graph_step p ts gr =
     (if ts = [] then Inr gr
      else if graph_manager_given p then Inr (fold (ingest_triple p) ts gr)
      else (case connect_error p of
              Some e \<Rightarrow> Inl e
            | None \<Rightarrow>
                (let gr' = fold (ingest_triple p) ts gr in
                 case close_error p of
                   None \<Rightarrow> Inr gr'
                 | Some e \<Rightarrow>
                     Inr (fst gr',
                          (snd gr')\<lparr>errors := errors (snd gr') @ [''Graph database error: '' @ exn_str e],
                                    success := False\<rparr>))))"

definition vector_step :: "IngestionPipeline \<Rightarrow> string \<Rightarrow> props \<Rightarrow> collection \<times> IngestionResult \<Rightarrow> collection \<times> IngestionResult" where
  \<comment> \<open>Step 3 of \<^verbatim>\<open>ingest_text\<close>: the metadata is \<^verbatim>\<open>{**metadata, "source": "ingestion"}\<close>.\<close>
  "vector_step p text metadata cr =
     (case (case vector_error p of
              Some e \<Rightarrow> Inl e
            | None \<Rightarrow>
                collection_add (add_policy p) (fst cr)
                  (generate_doc_id p text, text,
                   set_props [(''source'', JStr ''ingestion'')] metadata)) of
        Inr coll \<Rightarrow> (coll, (snd cr)\<lparr>documents_added := 1\<rparr>)
      | Inl e \<Rightarrow>
          (fst cr, (snd cr)\<lparr>errors := errors (snd cr) @ [''Vector database error: '' @ exn_str e]\<rparr>))"

definition ingest_text :: "IngestionPipeline \<Rightarrow> string \<Rightarrow> props \<Rightarrow> stores \<Rightarrow> exn + IngestionResult \<times> stores" where
  \<comment> \<open>\<^verbatim>\<open>IngestionPipeline.ingest_text\<close>, with the two stores passed through.\<close>
  "ingest_text p text metadata s =
     (let result = \<lparr>success = True, nodes_created = 0, relationships_created = 0,
                    documents_added = 0, errors = []\<rparr>;
          extraction = extractor p text;
          result1 = (case error extraction of
                       None \<Rightarrow> result
                     | Some e \<Rightarrow> if e = [] then result else result\<lparr>errors := errors result @ [e]\<rparr>)
      in case graph_step p (triples extraction) (graph_store s, result1) of
           Inl e \<Rightarrow> Inl e
         | Inr (g, result2) \<Rightarrow>
             (let (coll, result3) = vector_step p text metadata (vector_store s, result2)
              in Inr (result3, \<lparr>graph_store = g, vector_store = coll\<rparr>)))"

text \<open>The keys the loop merges, and what it means that a triple is already in the graph.\<close>

definition name_match :: "graph \<Rightarrow> string \<times> json \<Rightarrow> nat list" where
  "name_match g k = match_nodes g (fst k) [(''name'', snd k)]"

definition node_key :: "IngestionPipeline \<Rightarrow> json \<Rightarrow> json \<Rightarrow> (string \<times> json) option" where
  \<comment> \<open>The node key a call of \<^verbatim>\<open>_create_node\<close> merges, when the call succeeds.\<close>
  "node_key p label name =
     (case graph_rejects p (MergeNode label name) of
        Some e \<Rightarrow> None
      | None \<Rightarrow> map_option (\<lambda>l. (l, name)) (label_text label))"

definition rel_key :: "IngestionPipeline \<Rightarrow> Triple \<Rightarrow> ((string \<times> json) \<times> string \<times> (string \<times> json)) option" where
  \<comment> \<open>The endpoints and the type a call of \<^verbatim>\<open>_create_relationship\<close> merges, when the call
      succeeds.\<close>
  "rel_key p t =
     (case graph_rejects p (MergeRelationship t) of
        Some e \<Rightarrow> None
      | None \<Rightarrow>
          (case (label_text (subject_type t), label_text (object_type t),
                 label_text (predicate t), rel_props_arg (properties t)) of
             (Some fl, Some tlab, Some rt, Inr rp) \<Rightarrow> Some ((fl, subject t), rt, (tlab, object t))
           | _ \<Rightarrow> None))"

definition merged :: "IngestionPipeline \<Rightarrow> Triple \<Rightarrow> graph \<Rightarrow> bool" where
  \<comment> \<open>Everything the loop body merges for this triple is in the graph.\<close>
  "merged p t g =
     ((\<forall>k. node_key p (subject_type t) (subject t) = Some k \<longrightarrow> name_match g k \<noteq> [])
      \<and> (\<forall>k. node_key p (object_type t) (object t) = Some k \<longrightarrow> name_match g k \<noteq> [])
      \<and> (\<forall>kf rt kt. rel_key p t = Some (kf, rt, kt) \<longrightarrow>
            name_match g kf \<noteq> [] \<and> name_match g kt \<noteq> []
            \<and> (\<forall>a\<in>set (name_match g kf). \<forall>b\<in>set (name_match g kt). (a, rt, b) \<in> set (edge_keys g))))"

definition extends :: "graph \<Rightarrow> graph \<Rightarrow> bool" where
  \<comment> \<open>The second graph has what the first has: a key with nodes has the same nodes, and
      every relationship key is still there.\<close>
  "extends g g' =
     ((\<forall>k. name_match g k \<noteq> [] \<longrightarrow> name_match g' k = name_match g k)
      \<and> set (edge_keys g) \<subseteq> set (edge_keys g'))"

definition triple_graph :: "IngestionPipeline \<Rightarrow> Triple \<Rightarrow> graph \<Rightarrow> graph" where
  \<comment> \<open>What the loop body does to the graph.\<close>
  "triple_graph p t g =
     fst (create_relationship p
            (fst (create_node p (fst (create_node p g (subject_type t) (subject t)))
                    (object_type t) (object t)))
            t)"

text \<open>Two pipelines to evaluate: one whose graph engine refuses every call, one that works.\<close>

definition techflow_triple :: Triple where
  "techflow_triple =
     \<lparr>subject = JStr ''techflow'', subject_type = JStr ''Company'',
      predicate = JStr ''MANUFACTURES'', object = JStr ''flowchips'',
      object_type = JStr ''Product'', properties = JObj []\<rparr>"

definition mock_extract :: "string \<Rightarrow> ExtractionResult" where
  "mock_extract text = \<lparr>triples = [techflow_triple], source_text = text, error = None\<rparr>"

definition mock_digest :: "string \<Rightarrow> string" where
  "mock_digest text = ''5d41402abc4b2a76b9719d911017c592''"


definition accept_all :: "request \<Rightarrow> exn option" where
  "accept_all r = None"


definition healthy_pipeline :: IngestionPipeline where
  "healthy_pipeline =
     \<lparr>extractor = mock_extract, graph_manager_given = True, connect_error = None,
      close_error = None, graph_rejects = accept_all, md5_hexdigest = mock_digest,
      add_policy = Ignore, vector_error = None\<rparr>"

definition empty_stores :: stores where
  "empty_stores = \<lparr>graph_store = \<lparr>nodes = [], edges = []\<rparr>, vector_store = []\<rparr>"

definition merges_done :: "IngestionPipeline \<Rightarrow> Triple \<Rightarrow> nat" where
  \<comment> \<open>How many of the two \<^verbatim>\<open>_create_node\<close> calls for a triple succeed.\<close>
  "merges_done p t =
     (if node_key p (subject_type t) (subject t) \<noteq> None then 1 else 0)
     + (if node_key p (object_type t) (object t) \<noteq> None then 1 else 0)"


definition add_outcome :: "IngestionPipeline \<Rightarrow> string \<Rightarrow> props \<Rightarrow> collection \<Rightarrow> exn + collection" where
  \<comment> \<open>What the \<^verbatim>\<open>try\<close> block of step 3 comes to.\<close>
  "add_outcome p text metadata c =
     (case vector_error p of
        Some e \<Rightarrow> Inl e
      | None \<Rightarrow> collection_add (add_policy p) c
                  (generate_doc_id p text, text,
                   set_props [(''source'', JStr ''ingestion'')] metadata))"

section \<open>Properties of the entity normaliser\<close>

lemma to_lower_idem: "to_lower (to_lower c) = to_lower c"
  by (auto simp: to_lower_def Let_def)

lemma isspace_to_lower: "isspace (to_lower c) = isspace c"
  by (auto simp: to_lower_def isspace_def Let_def)

lemma lower_idem: "lower (lower s) = lower s"
  by (simp add: lower_def to_lower_idem)

lemma isspace_space: "isspace (CHR '' '')"
  by (simp add: isspace_def)

lemma isspace_nl: "isspace (CHR 0x0A)"
  by (simp add: isspace_def)

lemma collapse_ws_spaced: "spaced (collapse_ws s)"
proof (induction s rule: collapse_ws.induct)
  case 1 show ?case by simp
next
  case (2 c cs)
  show ?case
  proof (cases "isspace c")
    case True
    then have eq: "collapse_ws (c # cs) = CHR '' '' # collapse_ws (dropWhile isspace cs)"
      by simp
    show ?thesis
    proof (cases "dropWhile isspace cs")
      case Nil
      show ?thesis unfolding eq Nil by simp
    next
      case (Cons d ds)
      have "\<not> isspace (hd (dropWhile isspace cs))"
        using Cons by (metis hd_dropWhile list.distinct(1))
      then have nd: "\<not> isspace d" using Cons by simp
      from 2(1)[OF True] have "spaced (collapse_ws (d # ds))" using Cons by simp
      then show ?thesis unfolding eq Cons using nd by simp
    qed
  next
    case False
    from 2(2)[OF False] have ih: "spaced (collapse_ws cs)" .
    show ?thesis using False ih by (cases "collapse_ws cs") auto
  qed
qed

lemma spaced_collapse_ws: "spaced s \<Longrightarrow> collapse_ws s = s"
  by (induction s rule: spaced.induct) auto

lemma spaced_take: "spaced s \<Longrightarrow> spaced (take n s)"
proof (induction s arbitrary: n rule: spaced.induct)
  case 1 show ?case by simp
next
  case (2 c) then show ?case by (cases n) auto
next
  case (3 c d cs)
  show ?case
  proof (cases n)
    case 0 then show ?thesis by simp
  next
    case (Suc m)
    from 3 have sp: "spaced (take m (d # cs))" by simp
    show ?thesis
    proof (cases m)
      case 0 with Suc 3(2) show ?thesis by auto
    next
      case (Suc k)
      with sp \<open>n = Suc m\<close> 3(2) show ?thesis by auto
    qed
  qed
qed

lemma rstrip_eq_take: "rstrip s = take (length (rstrip s)) s"
proof -
  have "rev s = takeWhile isspace (rev s) @ dropWhile isspace (rev s)" by simp
  then have "s = rev (dropWhile isspace (rev s)) @ rev (takeWhile isspace (rev s))"
    by (metis rev_append rev_rev_ident)
  then have "s = rstrip s @ rev (takeWhile isspace (rev s))" by (simp add: rstrip_def)
  then show ?thesis by (metis append_eq_conv_conj)
qed

lemma rstrip_last: "rstrip s \<noteq> [] \<Longrightarrow> \<not> isspace (last (rstrip s))"
  unfolding rstrip_def by (metis hd_dropWhile last_rev rev_is_Nil_conv)

lemma rstrip_id: "s = [] \<or> \<not> isspace (last s) \<Longrightarrow> rstrip s = s"
proof (cases "rev s")
  case Nil then show ?thesis by (simp add: rstrip_def)
next
  case (Cons x xs)
  assume "s = [] \<or> \<not> isspace (last s)"
  with Cons have "\<not> isspace x" by (metis last_rev list.sel(1) rev_rev_ident list.distinct(1) rev_is_Nil_conv)
  with Cons show ?thesis by (simp add: rstrip_def rev_swap)
qed

lemma length_rstrip_le: "length (rstrip s) \<le> length s"
  by (metis rstrip_def length_rev length_dropWhile_le)

lemma length_rstrip_less: "s \<noteq> [] \<Longrightarrow> isspace (last s) \<Longrightarrow> length (rstrip s) < length s"
proof -
  assume a: "s \<noteq> []" "isspace (last s)"
  then obtain x xs where r: "rev s = x # xs" by (cases "rev s") auto
  with a have "isspace x" by (metis last_rev list.sel(1) rev_rev_ident)
  then have "length (dropWhile isspace (rev s)) \<le> length xs"
    using r by (simp add: length_dropWhile_le)
  moreover have "length s = Suc (length xs)" using r by (metis length_rev length_Cons)
  ultimately show ?thesis by (simp add: rstrip_def)
qed


lemma to_lower_space: "to_lower (CHR '' '') = CHR '' ''"
  by (simp add: to_lower_def)

lemma collapse_ws_set: "set (collapse_ws s) \<subseteq> insert (CHR '' '') (set s)"
proof (induction s rule: collapse_ws.induct)
  case 1 show ?case by simp
next
  case (2 c cs)
  show ?case
  proof (cases "isspace c")
    case True
    from 2(1)[OF True] have "set (collapse_ws (dropWhile isspace cs)) \<subseteq> insert (CHR '' '') (set cs)"
      using set_dropWhileD by fastforce
    with True show ?thesis by auto
  next
    case False
    with 2(2)[OF False] show ?thesis by auto
  qed
qed

lemma lower_fixed_iff: "lower s = s \<longleftrightarrow> (\<forall>c\<in>set s. to_lower c = c)"
  by (simp add: lower_def map_idI) (metis map_eq_conv list.map_id0 id_apply list.map_id)

lemma collapse_ws_lower: "lower s = s \<Longrightarrow> lower (collapse_ws s) = collapse_ws s"
  using collapse_ws_set[of s] by (auto simp: lower_fixed_iff to_lower_space)

lemma collapse_ws_hd: "s \<noteq> [] \<Longrightarrow> \<not> isspace (hd s) \<Longrightarrow> collapse_ws s \<noteq> [] \<and> hd (collapse_ws s) = hd s"
  by (cases s) auto

lemma collapse_ws_last:
  "s \<noteq> [] \<Longrightarrow> \<not> isspace (last s) \<Longrightarrow> collapse_ws s \<noteq> [] \<and> last (collapse_ws s) = last s"
proof (induction s rule: collapse_ws.induct)
  case 1 then show ?case by simp
next
  case (2 c cs)
  show ?case
  proof (cases "isspace c")
    case True
    with 2(4) have cs: "cs \<noteq> []" by auto
    with 2(4) have l: "\<not> isspace (last cs)" by simp
    have d: "dropWhile isspace cs \<noteq> []" using cs l
      by (metis dropWhile_eq_Nil_conv last_in_set)
    have "last (dropWhile isspace cs) = last cs" using d
      by (metis takeWhile_dropWhile_id last_appendR)
    with 2(1)[OF True d] l True d cs show ?thesis by simp
  next
    case False
    show ?thesis
    proof (cases cs)
      case Nil with False show ?thesis by simp
    next
      case (Cons d ds)
      with 2(2)[OF False] 2(4) False show ?thesis by auto
    qed
  qed
qed

lemma strip_hd: "strip s \<noteq> [] \<Longrightarrow> \<not> isspace (hd (strip s))"
proof -
  assume a: "strip s \<noteq> []"
  then have d: "dropWhile isspace s \<noteq> []"
    by (metis strip_def rstrip_def rev.simps(1) dropWhile.simps(1))
  have "strip s = take (length (strip s)) (dropWhile isspace s)"
    unfolding strip_def by (rule rstrip_eq_take)
  then have "hd (strip s) = hd (dropWhile isspace s)" using a
    by (metis hd_take length_greater_0_conv)
  then show ?thesis using d by (metis hd_dropWhile)
qed

lemma strip_last: "strip s \<noteq> [] \<Longrightarrow> \<not> isspace (last (strip s))"
  unfolding strip_def by (rule rstrip_last)

lemma strip_id: "s = [] \<or> (\<not> isspace (hd s) \<and> \<not> isspace (last s)) \<Longrightarrow> strip s = s"
proof -
  assume a: "s = [] \<or> (\<not> isspace (hd s) \<and> \<not> isspace (last s))"
  then have "dropWhile isspace s = s" by (cases s) auto
  then show ?thesis using a rstrip_id[of s] by (auto simp: strip_def)
qed

lemma lower_hd_last: "s \<noteq> [] \<Longrightarrow> isspace (hd (lower s)) = isspace (hd s) \<and> isspace (last (lower s)) = isspace (last s)"
  by (simp add: lower_def hd_map last_map isspace_to_lower)

lemma canonical_base: "canonical (collapse_ws (lower (strip name)))"
proof (cases "strip name = []")
  case True then show ?thesis by (simp add: canonical_def lower_def)
next
  case False
  let ?l = "lower (strip name)"
  have ne: "?l \<noteq> []" using False by (simp add: lower_def)
  have h: "\<not> isspace (hd ?l)" and l: "\<not> isspace (last ?l)"
    using False lower_hd_last strip_hd strip_last by auto
  have "lower (collapse_ws ?l) = collapse_ws ?l"
    by (rule collapse_ws_lower) (rule lower_idem)
  moreover have "spaced (collapse_ws ?l)" by (rule collapse_ws_spaced)
  moreover have "\<not> isspace (hd (collapse_ws ?l))" using collapse_ws_hd[OF ne h] h by simp
  moreover have "\<not> isspace (last (collapse_ws ?l))" using collapse_ws_last[OF ne l] l by simp
  ultimately show ?thesis by (simp add: canonical_def)
qed

lemma canonical_take:
  assumes "canonical t" and "take n t = [] \<or> \<not> isspace (last (take n t))"
  shows "canonical (take n t)"
proof -
  from assms(1) have fx: "\<forall>c\<in>set t. to_lower c = c" by (simp add: canonical_def lower_fixed_iff)
  have "\<forall>c\<in>set (take n t). to_lower c = c" using fx by (meson in_set_takeD)
  then have "lower (take n t) = take n t" by (simp add: lower_fixed_iff)
  moreover have "spaced (take n t)" using assms(1) by (simp add: canonical_def spaced_take)
  moreover have "take n t \<noteq> [] \<Longrightarrow> \<not> isspace (hd (take n t))"
  proof -
    assume a: "take n t \<noteq> []"
    then have "t \<noteq> []" "0 < n" by auto
    then show ?thesis using assms(1) by (simp add: canonical_def)
  qed
  ultimately show ?thesis using assms(2) by (auto simp: canonical_def)
qed

lemma canonical_rstrip_take: "canonical t \<Longrightarrow> canonical (rstrip (take n t))"
proof -
  assume c: "canonical t"
  have "rstrip (take n t) = take (length (rstrip (take n t))) (take n t)" by (rule rstrip_eq_take)
  then have e: "rstrip (take n t) = take (min (length (rstrip (take n t))) n) t" by simp
  have "canonical (take (min (length (rstrip (take n t))) n) t)"
    by (rule canonical_take[OF c]) (metis e rstrip_last)
  then show ?thesis using e by simp
qed

lemma match_lit_take: "match_lit lit s = Some r \<Longrightarrow> \<exists>n. r = rstrip (take n s)"
  by (auto simp: match_lit_def Let_def split: if_splits)

lemma match_end_take: "match_end p s = Some r \<Longrightarrow> \<exists>n. r = rstrip (take n s)"
proof -
  assume a: "match_end p s = Some r"
  then consider "match_lit (fst p) (butlast s) = Some r" | "match_lit (fst p) s = Some r"
    by (auto simp: match_end_def split: option.splits if_splits)
  then show ?thesis
  proof cases
    case 1
    then obtain n where "r = rstrip (take n (butlast s))" using match_lit_take by blast
    then have "r = rstrip (take (min n (length s - 1)) s)" by (simp add: butlast_conv_take min.commute)
    then show ?thesis by blast
  next
    case 2 then show ?thesis using match_lit_take by blast
  qed
qed

lemma canonical_no_nl: "canonical t \<Longrightarrow> \<not> (t \<noteq> [] \<and> last t = CHR 0x0A)"
  using isspace_nl by (auto simp: canonical_def)

lemma sub_suffix_canonical_eq:
  "canonical t \<Longrightarrow> sub_suffix p t = (case match_end p t of Some r \<Rightarrow> r | None \<Rightarrow> t)"
  using canonical_no_nl[of t] by (auto simp: sub_suffix_def split: option.splits)

lemma canonical_sub_suffix: "canonical t \<Longrightarrow> canonical (sub_suffix p t)"
proof -
  assume c: "canonical t"
  show ?thesis
  proof (cases "match_end p t")
    case None with c show ?thesis by (simp add: sub_suffix_canonical_eq)
  next
    case (Some r)
    then obtain n where "r = rstrip (take n t)" using match_end_take by blast
    with c Some show ?thesis by (simp add: sub_suffix_canonical_eq canonical_rstrip_take)
  qed
qed

lemma canonical_fold: "canonical t \<Longrightarrow> canonical (fold sub_suffix ps t)"
  by (induction ps arbitrary: t) (auto simp: canonical_sub_suffix)

lemma canonical_strip: "canonical t \<Longrightarrow> strip t = t"
  by (rule strip_id) (auto simp: canonical_def)

lemma canonical_collapse: "canonical t \<Longrightarrow> collapse_ws t = t"
  by (simp add: canonical_def spaced_collapse_ws)

lemma canonical_lower: "canonical t \<Longrightarrow> lower t = t"
  by (simp add: canonical_def)

lemma canonical_normalize: "canonical (normalize_entity_name s)"
proof (cases "s = []")
  case True then show ?thesis by (simp add: normalize_entity_name_def canonical_def lower_def)
next
  case False
  have c: "canonical (fold sub_suffix COMPANY_SUFFIXES (collapse_ws (lower (strip s))))"
    by (rule canonical_fold) (rule canonical_base)
  then show ?thesis using False by (simp add: normalize_entity_name_def canonical_strip)
qed

lemma normalize_canonical:
  "canonical t \<Longrightarrow> normalize_entity_name t = fold sub_suffix COMPANY_SUFFIXES t"
proof (cases "t = []")
  case True then show ?thesis by (simp add: normalize_entity_name_def COMPANY_SUFFIXES_def sub_suffix_def match_end_def match_lit_def)
next
  case False
  assume c: "canonical t"
  have "canonical (fold sub_suffix COMPANY_SUFFIXES t)" using c by (rule canonical_fold)
  then show ?thesis using False c
    by (simp add: normalize_entity_name_def canonical_strip canonical_collapse canonical_lower)
qed

lemma fold_fixed: "\<forall>p\<in>set ps. sub_suffix p t = t \<Longrightarrow> fold sub_suffix ps t = t"
  by (induction ps) auto

lemma length_match_lit: "match_lit lit s = Some r \<Longrightarrow> length r < length s"
proof -
  assume "match_lit lit s = Some r"
  then have r: "r = rstrip (take (length s - length lit) s)"
    and ne: "take (length s - length lit) s \<noteq> []"
    and sp: "isspace (last (take (length s - length lit) s))"
    by (auto simp: match_lit_def Let_def split: if_splits)
  have "length r < length (take (length s - length lit) s)"
    unfolding r by (rule length_rstrip_less[OF ne sp])
  then show ?thesis by simp
qed

lemma length_match_end: "match_end p s = Some r \<Longrightarrow> length r < length s"
proof -
  assume a: "match_end p s = Some r"
  then consider "match_lit (fst p) (butlast s) = Some r" | "match_lit (fst p) s = Some r"
    by (auto simp: match_end_def split: option.splits if_splits)
  then show ?thesis
  proof cases
    case 1 then have "length r < length (butlast s)" by (rule length_match_lit)
    then show ?thesis by simp
  next
    case 2 then show ?thesis by (rule length_match_lit)
  qed
qed

lemma length_sub_suffix: "length (sub_suffix p s) \<le> length s"
proof (cases "match_end p s")
  case (Some r) then show ?thesis using length_match_end[OF Some] by (simp add: sub_suffix_def)
next
  case None
  show ?thesis
  proof (cases "match_end p (butlast s)")
    case None' : None with None show ?thesis by (simp add: sub_suffix_def)
  next
    case (Some r)
    from length_match_end[OF Some] have "length r < length s - 1" by simp
    with None Some show ?thesis by (auto simp: sub_suffix_def)
  qed
qed

lemma length_sub_suffix_less: "sub_suffix p s \<noteq> s \<Longrightarrow> length (sub_suffix p s) < length s"
proof (cases "match_end p s")
  case (Some r) then show ?thesis using length_match_end[OF Some] by (simp add: sub_suffix_def)
next
  case None
  assume ne: "sub_suffix p s \<noteq> s"
  show ?thesis
  proof (cases "match_end p (butlast s)")
    case None' : None with None ne show ?thesis by (auto simp: sub_suffix_def split: if_splits)
  next
    case (Some r)
    from length_match_end[OF Some] have "length r < length s - 1" by simp
    with None Some ne show ?thesis by (auto simp: sub_suffix_def split: if_splits)
  qed
qed

lemma length_fold_sub_suffix: "length (fold sub_suffix ps t) \<le> length t"
proof (induction ps arbitrary: t)
  case Nil show ?case by simp
next
  case (Cons p ps)
  have "length (fold sub_suffix ps (sub_suffix p t)) \<le> length (sub_suffix p t)" by (rule Cons.IH)
  then show ?case using length_sub_suffix[of p t] by simp
qed

lemma length_fold_sub_suffix_less:
  "\<exists>p\<in>set ps. sub_suffix p t \<noteq> t \<Longrightarrow> length (fold sub_suffix ps t) < length t"
proof (induction ps arbitrary: t)
  case Nil then show ?case by simp
next
  case (Cons q qs)
  show ?case
  proof (cases "sub_suffix q t = t")
    case True
    with Cons.prems have "\<exists>p\<in>set qs. sub_suffix p t \<noteq> t" by auto
    then have "length (fold sub_suffix qs t) < length t" by (rule Cons.IH)
    with True show ?thesis by simp
  next
    case False
    then have "length (sub_suffix q t) < length t" by (rule length_sub_suffix_less)
    moreover have "length (fold sub_suffix qs (sub_suffix q t)) \<le> length (sub_suffix q t)"
      by (rule length_fold_sub_suffix)
    ultimately show ?thesis by simp
  qed
qed

text \<open>
  Claim C3, as stated: for every string \<open>s\<close>, normalising twice gives the same as normalising
  once. The suffix loop runs over the pattern list once, in list order, so a name that ends in
  two suffixes in the other order keeps one of them: \<^verbatim>\<open>"acme inc corp"\<close> becomes
  \<^verbatim>\<open>"acme inc"\<close>, and only a second call gives \<^verbatim>\<open>"acme"\<close>.
\<close>

theorem normalize_not_idempotent:
  "normalize_entity_name (normalize_entity_name ''acme inc corp'')
     \<noteq> normalize_entity_name ''acme inc corp''"
  by code_simp

text \<open>
  Claim C3, amended: normalising twice gives the same as normalising once exactly for the
  strings whose normalised form no longer ends in one of the listed suffixes.
\<close>

theorem normalize_idempotent_iff:
  "normalize_entity_name (normalize_entity_name s) = normalize_entity_name s
     \<longleftrightarrow> \<not> has_company_suffix (normalize_entity_name s)"
proof -
  let ?t = "normalize_entity_name s"
  have c: "canonical ?t" by (rule canonical_normalize)
  have n: "normalize_entity_name ?t = fold sub_suffix COMPANY_SUFFIXES ?t"
    by (rule normalize_canonical[OF c])
  show ?thesis
  proof (cases "has_company_suffix ?t")
    case True
    then have "\<exists>p\<in>set COMPANY_SUFFIXES. sub_suffix p ?t \<noteq> ?t"
      by (simp add: has_company_suffix_def list_ex_iff)
    then have "length (fold sub_suffix COMPANY_SUFFIXES ?t) < length ?t"
      by (rule length_fold_sub_suffix_less)
    with n True show ?thesis by auto
  next
    case False
    then have "\<forall>p\<in>set COMPANY_SUFFIXES. sub_suffix p ?t = ?t"
      by (simp add: has_company_suffix_def list_ex_iff)
    then have "fold sub_suffix COMPANY_SUFFIXES ?t = ?t" by (rule fold_fixed)
    with n False show ?thesis by simp
  qed
qed

theorem normalize_idempotent_iff_witness:
  "\<not> has_company_suffix (normalize_entity_name ''Apple Inc.'')
   \<and> normalize_entity_name (normalize_entity_name ''Apple Inc.'') = normalize_entity_name ''Apple Inc.''"
proof -
  have h: "\<not> has_company_suffix (normalize_entity_name ''Apple Inc.'')" by code_simp
  with normalize_idempotent_iff[of "''Apple Inc.''"] show ?thesis by blast
qed


section \<open>Properties of the knowledge extractor\<close>

lemma normalize_value_falsy: "\<not> truthy v \<Longrightarrow> normalize_value v = Inr []"
  by (simp add: normalize_value_def)

lemma normalize_value_truthy:
  "truthy v \<Longrightarrow> normalize_value v = Inr n \<Longrightarrow> \<exists>s. v = JStr s \<and> s \<noteq> [] \<and> n = normalize_entity_name s"
  by (cases v) (simp_all add: normalize_value_def)

lemma normalized_or_raw_truthy:
  assumes "normalized_or_raw v = Inr w"
  shows "truthy w = truthy v \<and> (truthy w \<longrightarrow> (\<exists>s. w = JStr s \<and> s \<noteq> []))"
proof (cases "truthy v")
  case False
  then have "normalize_value v = Inr []" by (rule normalize_value_falsy)
  with assms have "w = v" by (simp add: normalized_or_raw_def)
  with False show ?thesis by simp
next
  case True
  from assms obtain n where n: "normalize_value v = Inr n"
    and w: "w = (if n \<noteq> [] then JStr n else v)"
    by (cases "normalize_value v") (simp_all add: normalized_or_raw_def)
  from normalize_value_truthy[OF True n] obtain s where "v = JStr s" "s \<noteq> []" by blast
  with w True show ?thesis by (cases "n = []") simp_all
qed

lemma normalize_triple_truthy:
  assumes "normalize_triple t = Inr t'"
  shows "truthy (subject t') = truthy (subject t) \<and> truthy (object t') = truthy (object t)
         \<and> (truthy (subject t') \<longrightarrow> (\<exists>s. subject t' = JStr s \<and> s \<noteq> []))
         \<and> (truthy (object t') \<longrightarrow> (\<exists>s. object t' = JStr s \<and> s \<noteq> []))"
proof -
  from assms obtain s where s: "normalized_or_raw (subject t) = Inr s"
    by (cases "normalized_or_raw (subject t)") (simp_all add: normalize_triple_def)
  from assms s obtain p where p: "upper_snake (predicate t) = Inr p"
    by (cases "upper_snake (predicate t)") (simp_all add: normalize_triple_def)
  from assms s p obtain ob where ob: "normalized_or_raw (object t) = Inr ob"
    by (cases "normalized_or_raw (object t)") (simp_all add: normalize_triple_def)
  from assms s p ob have t': "t' = t\<lparr>subject := s, predicate := p, object := ob\<rparr>"
    by (simp add: normalize_triple_def)
  from normalized_or_raw_truthy[OF s] normalized_or_raw_truthy[OF ob] t'
  show ?thesis by simp
qed

lemma make_triple_kept:
  assumes "make_triple norm item = Inr t"
  shows "(truthy (subject t) \<and> truthy (object t)) = (\<not> raw_empty item)"
    and "norm \<Longrightarrow> truthy (subject t) \<Longrightarrow> \<exists>s. subject t = JStr s \<and> s \<noteq> []"
    and "norm \<Longrightarrow> truthy (object t) \<Longrightarrow> \<exists>s. object t = JStr s \<and> s \<noteq> []"
proof -
  from assms obtain d where d: "item = JObj d"
    by (cases item) (auto simp: make_triple_def)
  show "(truthy (subject t) \<and> truthy (object t)) = (\<not> raw_empty item)"
  proof (cases norm)
    case True
    with assms d have "normalize_triple (raw_triple d) = Inr t" by (simp add: make_triple_def)
    from normalize_triple_truthy[OF this] d show ?thesis by (simp add: raw_empty_def)
  next
    case False
    with assms d show ?thesis by (auto simp: make_triple_def raw_empty_def)
  qed
  show "norm \<Longrightarrow> truthy (subject t) \<Longrightarrow> \<exists>s. subject t = JStr s \<and> s \<noteq> []"
  proof -
    assume "norm" "truthy (subject t)"
    with assms d have "normalize_triple (raw_triple d) = Inr t" by (simp add: make_triple_def)
    from normalize_triple_truthy[OF this] \<open>truthy (subject t)\<close> show ?thesis by simp
  qed
  show "norm \<Longrightarrow> truthy (object t) \<Longrightarrow> \<exists>s. object t = JStr s \<and> s \<noteq> []"
  proof -
    assume "norm" "truthy (object t)"
    with assms d have "normalize_triple (raw_triple d) = Inr t" by (simp add: make_triple_def)
    from normalize_triple_truthy[OF this] \<open>truthy (object t)\<close> show ?thesis by simp
  qed
qed

lemma parse_items_filter:
  "parse_items norm items = Inr ts \<Longrightarrow>
     length ts + length (filter raw_empty items) = length items
     \<and> (\<forall>t\<in>set ts. truthy (subject t) \<and> truthy (object t))
     \<and> (norm \<longrightarrow> (\<forall>t\<in>set ts. \<exists>s ob. subject t = JStr s \<and> s \<noteq> [] \<and> object t = JStr ob \<and> ob \<noteq> []))"
proof (induction items arbitrary: ts)
  case Nil
  then show ?case by simp
next
  case (Cons item items)
  from Cons.prems obtain t ts' where t: "make_triple norm item = Inr t"
    and ts': "parse_items norm items = Inr ts'"
    and ts: "ts = (if truthy (subject t) \<and> truthy (object t) then t # ts' else ts')"
    by (auto split: sum.splits)
  note ih = Cons.IH[OF ts']
  note k = make_triple_kept[OF t]
  show ?case
  proof (cases "truthy (subject t) \<and> truthy (object t)")
    case True
    with k(1) have ne: "\<not> raw_empty item" by simp
    from True k(2,3) have str: "norm \<longrightarrow> (\<exists>s ob. subject t = JStr s \<and> s \<noteq> [] \<and> object t = JStr ob \<and> ob \<noteq> [])"
      by blast
    from True ts ih ne str show ?thesis by auto
  next
    case False
    with k(1) have "raw_empty item" by simp
    with False ts ih show ?thesis by auto
  qed
qed

lemma rstrip_nonempty: "s \<noteq> [] \<Longrightarrow> \<not> isspace (hd s) \<Longrightarrow> rstrip s \<noteq> []"
proof -
  assume a: "s \<noteq> []" "\<not> isspace (hd s)"
  then have "hd s \<in> set (rev s)" by simp
  with a(2) have "\<not> (\<forall>x\<in>set (rev s). isspace x)" by blast
  then have "dropWhile isspace (rev s) \<noteq> []" unfolding dropWhile_eq_Nil_conv .
  then show ?thesis unfolding rstrip_def by simp
qed

lemma strip_empty_iff: "strip s = [] \<longleftrightarrow> list_all isspace s"
proof
  assume "list_all isspace s"
  then have d: "dropWhile isspace s = []" unfolding list_all_iff dropWhile_eq_Nil_conv .
  show "strip s = []" unfolding strip_def d rstrip_def by simp
next
  assume e: "strip s = []"
  show "list_all isspace s"
  proof (rule ccontr)
    assume "\<not> list_all isspace s"
    then have d: "dropWhile isspace s \<noteq> []" unfolding list_all_iff dropWhile_eq_Nil_conv .
    then have "\<not> isspace (hd (dropWhile isspace s))" by (rule hd_dropWhile)
    with d have "rstrip (dropWhile isspace s) \<noteq> []" by (rule rstrip_nonempty)
    with e show False by (simp add: strip_def)
  qed
qed

lemma match_lit_nonempty:
  assumes "match_lit lit s = Some r" and "\<not> isspace (hd s)"
  shows "r \<noteq> []"
proof -
  let ?pre = "take (length s - length lit) s"
  from assms(1) have p: "?pre \<noteq> []" and r: "r = rstrip ?pre"
    by (auto simp: match_lit_def Let_def split: if_splits)
  from p have "0 < length s - length lit" by (cases "length s - length lit") simp_all
  then have "hd ?pre = hd s" by (rule hd_take)
  with assms(2) p r show ?thesis by (simp add: rstrip_nonempty)
qed

lemma match_end_nonempty:
  assumes "match_end p s = Some r" and "\<not> isspace (hd s)"
  shows "r \<noteq> []"
proof (cases "match_lit (fst p) s = Some r")
  case True
  then show ?thesis using assms(2) by (rule match_lit_nonempty)
next
  case False
  with assms(1) have m: "match_lit (fst p) (butlast s) = Some r"
    by (auto simp: match_end_def split: if_splits option.splits)
  then have "butlast s \<noteq> []" by (auto simp: match_lit_def Let_def split: if_splits)
  then have "hd (butlast s) = hd s" by (cases s) auto
  with assms(2) have "\<not> isspace (hd (butlast s))" by simp
  with m show ?thesis by (rule match_lit_nonempty)
qed

lemma sub_suffix_nonempty: "canonical t \<Longrightarrow> t \<noteq> [] \<Longrightarrow> sub_suffix p t \<noteq> []"
proof -
  assume c: "canonical t" and n: "t \<noteq> []"
  then have h: "\<not> isspace (hd t)" by (simp add: canonical_def)
  show ?thesis
  proof (cases "match_end p t")
    case None
    with c n show ?thesis by (simp add: sub_suffix_canonical_eq)
  next
    case (Some r)
    from match_end_nonempty[OF Some h] c Some show ?thesis by (simp add: sub_suffix_canonical_eq)
  qed
qed

lemma fold_sub_suffix_nonempty: "canonical t \<Longrightarrow> t \<noteq> [] \<Longrightarrow> fold sub_suffix ps t \<noteq> []"
proof (induction ps arbitrary: t)
  case Nil
  then show ?case by simp
next
  case (Cons p ps)
  have "canonical (sub_suffix p t)" using Cons.prems(1) by (rule canonical_sub_suffix)
  moreover have "sub_suffix p t \<noteq> []" using Cons.prems by (rule sub_suffix_nonempty)
  ultimately have "fold sub_suffix ps (sub_suffix p t) \<noteq> []" by (rule Cons.IH)
  then show ?case by simp
qed

lemma normalize_empty_iff: "normalize_entity_name s = [] \<longleftrightarrow> list_all isspace s"
proof (cases "strip s = []")
  case True
  then have a: "list_all isspace s" by (simp add: strip_empty_iff)
  have n: "sub_suffix p [] = []" for p
    by (simp add: sub_suffix_def match_end_def match_lit_def)
  have "fold sub_suffix ps [] = []" for ps
    by (induction ps) (simp_all add: n)
  then have f: "fold sub_suffix COMPANY_SUFFIXES [] = []" .
  have l: "collapse_ws (lower []) = []" by (simp add: lower_def)
  have st: "strip [] = []" by (simp add: strip_def rstrip_def)
  have n: "normalize_entity_name s = []"
    unfolding normalize_entity_name_def True l f st by (rule if_cancel)
  show ?thesis
  proof
    show "list_all isspace s" by (rule a)
    show "normalize_entity_name s = []" by (rule n)
  qed

next
  case False
  then have a: "\<not> list_all isspace s" by (simp add: strip_empty_iff)
  then have s: "s \<noteq> []" by auto
  let ?b = "collapse_ws (lower (strip s))"
  from False have "lower (strip s) \<noteq> []" by (simp add: lower_def)
  moreover from False have "\<not> isspace (hd (lower (strip s)))"
    using strip_hd[of s] lower_hd_last[of "strip s"] by simp
  ultimately have b: "?b \<noteq> []" using collapse_ws_hd by blast
  have c: "canonical ?b" by (rule canonical_base)
  have f: "fold sub_suffix COMPANY_SUFFIXES ?b \<noteq> []" using c b by (rule fold_sub_suffix_nonempty)
  have "canonical (fold sub_suffix COMPANY_SUFFIXES ?b)" using c by (rule canonical_fold)
  then have "strip (fold sub_suffix COMPANY_SUFFIXES ?b) = fold sub_suffix COMPANY_SUFFIXES ?b"
    by (rule canonical_strip)
  with f s have n: "normalize_entity_name s \<noteq> []" unfolding normalize_entity_name_def by simp
  show ?thesis
  proof
    assume "normalize_entity_name s = []"
    with n show "list_all isspace s" by (rule notE)
  next
    assume "list_all isspace s"
    with a show "normalize_entity_name s = []" by (rule notE)
  qed
qed


lemma normalized_or_raw_name:
  assumes "truthy v" and "normalized_or_raw v = Inr w"
  shows "\<exists>s. v = JStr s \<and> s \<noteq> []
             \<and> w = JStr (if list_all isspace s then s else normalize_entity_name s)"
proof -
  from assms(2) obtain n where n: "normalize_value v = Inr n"
    and w: "w = (if n \<noteq> [] then JStr n else v)"
    by (cases "normalize_value v") (simp_all add: normalized_or_raw_def)
  from normalize_value_truthy[OF assms(1) n] obtain s where
    s: "v = JStr s" "s \<noteq> []" "n = normalize_entity_name s" by blast
  have "(n = []) = list_all isspace s" unfolding s(3) by (rule normalize_empty_iff)
  with w s(1,3) have "w = JStr (if list_all isspace s then s else normalize_entity_name s)"
    by (cases "n = []") simp_all
  with s(1,2) show ?thesis by blast
qed

lemma make_triple_names:
  assumes "make_triple True item = Inr t" and "\<not> raw_empty item"
  shows "\<exists>d s ob p. item = JObj d
           \<and> subject (raw_triple d) = JStr s \<and> s \<noteq> []
           \<and> object (raw_triple d) = JStr ob \<and> ob \<noteq> []
           \<and> upper_snake (predicate (raw_triple d)) = Inr p
           \<and> t = (raw_triple d)
                   \<lparr>subject := JStr (if list_all isspace s then s else normalize_entity_name s),
                    predicate := p,
                    object := JStr (if list_all isspace ob then ob else normalize_entity_name ob)\<rparr>"
proof -
  from assms(1) obtain d where d: "item = JObj d"
    by (cases item) (auto simp: make_triple_def)
  let ?r = "raw_triple d"
  from assms(1) d have nt: "normalize_triple ?r = Inr t" by (simp add: make_triple_def)
  from assms(2) d have ts: "truthy (subject ?r)" and tob: "truthy (object ?r)"
    by (simp_all add: raw_empty_def)
  from nt obtain sv where sv: "normalized_or_raw (subject ?r) = Inr sv"
    by (cases "normalized_or_raw (subject ?r)") (simp_all add: normalize_triple_def)
  from nt sv obtain p where p: "upper_snake (predicate ?r) = Inr p"
    by (cases "upper_snake (predicate ?r)") (simp_all add: normalize_triple_def)
  from nt sv p obtain ov where ov: "normalized_or_raw (object ?r) = Inr ov"
    by (cases "normalized_or_raw (object ?r)") (simp_all add: normalize_triple_def)
  from nt sv p ov have t: "t = ?r\<lparr>subject := sv, predicate := p, object := ov\<rparr>"
    by (simp add: normalize_triple_def)
  from normalized_or_raw_name[OF ts sv] obtain s where
    s: "subject ?r = JStr s" "s \<noteq> []"
       "sv = JStr (if list_all isspace s then s else normalize_entity_name s)" by blast
  from normalized_or_raw_name[OF tob ov] obtain ob where
    ob: "object ?r = JStr ob" "ob \<noteq> []"
        "ov = JStr (if list_all isspace ob then ob else normalize_entity_name ob)" by blast
  have "t = ?r\<lparr>subject := JStr (if list_all isspace s then s else normalize_entity_name s),
                predicate := p,
                object := JStr (if list_all isspace ob then ob else normalize_entity_name ob)\<rparr>"
    unfolding t s(3) ob(3) ..
  with d s(1,2) ob(1,2) p show ?thesis by blast
qed

lemma make_triple_raw: "make_triple False item = Inr t \<Longrightarrow> \<exists>d. item = JObj d \<and> t = raw_triple d"
  by (cases item) (auto simp: make_triple_def)

lemma parse_items_names:
  "parse_items True items = Inr ts \<Longrightarrow>
     list_all2
       (\<lambda>item t. \<exists>d s ob p. item = JObj d
           \<and> subject (raw_triple d) = JStr s \<and> s \<noteq> []
           \<and> object (raw_triple d) = JStr ob \<and> ob \<noteq> []
           \<and> upper_snake (predicate (raw_triple d)) = Inr p
           \<and> t = (raw_triple d)
                   \<lparr>subject := JStr (if list_all isspace s then s else normalize_entity_name s),
                    predicate := p,
                    object := JStr (if list_all isspace ob then ob else normalize_entity_name ob)\<rparr>)
       (filter (\<lambda>item. \<not> raw_empty item) items) ts"
proof (induction items arbitrary: ts)
  case Nil
  then show ?case by simp
next
  case (Cons item items)
  from Cons.prems obtain t ts' where t: "make_triple True item = Inr t"
    and ts': "parse_items True items = Inr ts'"
    and ts: "ts = (if truthy (subject t) \<and> truthy (object t) then t # ts' else ts')"
    by (auto split: sum.splits)
  note ih = Cons.IH[OF ts']
  note k = make_triple_kept(1)[OF t]
  show ?case
  proof (cases "raw_empty item")
    case True
    with k ts have "ts = ts'" by auto
    with True ih show ?thesis by simp
  next
    case False
    with k ts have e: "ts = t # ts'" by auto
    from make_triple_names[OF t False] ih False show ?thesis unfolding e by simp
  qed
qed

lemma parse_items_raw:
  "parse_items False items = Inr ts \<Longrightarrow>
     list_all2 (\<lambda>item t. \<exists>d. item = JObj d \<and> t = raw_triple d)
       (filter (\<lambda>item. \<not> raw_empty item) items) ts"
proof (induction items arbitrary: ts)
  case Nil
  then show ?case by simp
next
  case (Cons item items)
  from Cons.prems obtain t ts' where t: "make_triple False item = Inr t"
    and ts': "parse_items False items = Inr ts'"
    and ts: "ts = (if truthy (subject t) \<and> truthy (object t) then t # ts' else ts')"
    by (auto split: sum.splits)
  note ih = Cons.IH[OF ts']
  note k = make_triple_kept(1)[OF t]
  show ?case
  proof (cases "raw_empty item")
    case True
    with k ts have "ts = ts'" by auto
    with True ih show ?thesis by simp
  next
    case False
    with k ts have e: "ts = t # ts'" by auto
    from make_triple_raw[OF t] ih False show ?thesis unfolding e by simp
  qed
qed

lemma normalized_name_nonempty:
  "\<not> list_all isspace s \<Longrightarrow> normalize_entity_name s \<noteq> []"
  using normalize_empty_iff[of s] by blast

text \<open>
  Claim C2, as stated: an item whose subject or object normalises to the empty string is
  dropped. The loop keeps the raw name when the normalised one is empty
  (\<^verbatim>\<open>normalize_entity_name(x) or x\<close>), so an item whose subject is a single space is
  returned, with that space as its subject.
\<close>

theorem whitespace_name_not_dropped:
  "normalize_entity_name '' '' = []
   \<and> parse_data True
        (JObj [(''triples'', JArr [JObj [(''subject'', JStr '' ''), (''object'', JStr ''x'')]])])
     = Inr [\<lparr>subject = JStr '' '', subject_type = JStr ''Entity'',
             predicate = JStr ''RELATED_TO'', object = JStr ''x'',
             object_type = JStr ''Entity'', properties = JObj []\<rparr>]"
  by code_simp

text \<open>
  Claim C2, amended: when response parsing returns, the returned triples are, in order, the
  items whose subject and object are both present and non-empty in the response itself, one
  triple for each, so the count is the number of items less one for each item whose subject
  or object is missing or empty. With normalisation on, the subject of a returned triple is
  the normalised subject of its item, a non-empty string, unless the subject of the item
  consists of whitespace only (the only names that normalise to the empty string, see
  \<open>normalize_empty_iff\<close>): then it is the subject of the item, unchanged. The same holds of
  the object; the predicate is put in upper case with underscores, and the other fields are
  those of the item. With normalisation off, the triple is the item as it stands.
\<close>

theorem parse_response_filter:
  assumes "parse_response norm loads response = Inr ts"
  shows "\<exists>json_str d items.
           json_match response = Some json_str \<and> loads json_str = Inr (JObj d)
           \<and> iter_items (dict_get d ''triples'' (JArr [])) = Inr items
           \<and> length ts + length (filter raw_empty items) = length items
           \<and> (\<forall>t\<in>set ts. truthy (subject t) \<and> truthy (object t))
           \<and> (norm \<longrightarrow> (\<forall>t\<in>set ts. \<exists>s ob. subject t = JStr s \<and> s \<noteq> []
                                              \<and> object t = JStr ob \<and> ob \<noteq> []))
           \<and> (norm \<longrightarrow>
                list_all2
                  (\<lambda>item t. \<exists>f s ob p. item = JObj f
                      \<and> subject (raw_triple f) = JStr s \<and> s \<noteq> []
                      \<and> object (raw_triple f) = JStr ob \<and> ob \<noteq> []
                      \<and> upper_snake (predicate (raw_triple f)) = Inr p
                      \<and> t = (raw_triple f)
                              \<lparr>subject := JStr (if list_all isspace s then s
                                                else normalize_entity_name s),
                               predicate := p,
                               object := JStr (if list_all isspace ob then ob
                                               else normalize_entity_name ob)\<rparr>)
                  (filter (\<lambda>item. \<not> raw_empty item) items) ts)
           \<and> (\<not> norm \<longrightarrow>
                list_all2 (\<lambda>item t. \<exists>f. item = JObj f \<and> t = raw_triple f)
                  (filter (\<lambda>item. \<not> raw_empty item) items) ts)"
proof -
  from assms obtain js data where js: "json_match response = Some js"
    and data: "loads js = Inr data" and pd: "parse_data norm data = Inr ts"
    by (auto simp: parse_response_def split: option.splits sum.splits)
  from pd obtain d items where d: "data = JObj d"
    and it: "iter_items (dict_get d ''triples'' (JArr [])) = Inr items"
    and pi: "parse_items norm items = Inr ts"
    by (cases data) (auto simp: parse_data_def split: sum.splits)
  note f = parse_items_filter[OF pi]
  show ?thesis
  proof (cases norm)
    case True
    with pi have "parse_items True items = Inr ts" by simp
    note n = parse_items_names[OF this]
    show ?thesis
      apply (rule exI[of _ js], rule exI[of _ d], rule exI[of _ items])
      using js data d it f n True by simp
  next
    case False
    with pi have "parse_items False items = Inr ts" by simp
    note n = parse_items_raw[OF this]
    show ?thesis
      apply (rule exI[of _ js], rule exI[of _ d], rule exI[of _ items])
      using js data d it f n False by simp
  qed
qed

theorem parse_response_filter_witness:
  "parse_response True
     (\<lambda>s. Inr (JObj [(''triples'',
        JArr [JObj [(''subject'', JStr ''TechFlow Inc.''), (''object'', JStr ''FlowChips'')],
              JObj [(''subject'', JStr ''Acme''), (''object'', JStr [])],
              JObj [(''subject'', JStr ''  ''), (''object'', JStr ''Singapore'')]])]))
     ''{}''
     = Inr [\<lparr>subject = JStr ''techflow'', subject_type = JStr ''Entity'',
             predicate = JStr ''RELATED_TO'', object = JStr ''flowchips'',
             object_type = JStr ''Entity'', properties = JObj []\<rparr>,
            \<lparr>subject = JStr ''  '', subject_type = JStr ''Entity'',
             predicate = JStr ''RELATED_TO'', object = JStr ''singapore'',
             object_type = JStr ''Entity'', properties = JObj []\<rparr>]
   \<and> (\<exists>items.
         iter_items (dict_get [(''triples'',
            JArr [JObj [(''subject'', JStr ''TechFlow Inc.''), (''object'', JStr ''FlowChips'')],
                  JObj [(''subject'', JStr ''Acme''), (''object'', JStr [])],
                  JObj [(''subject'', JStr ''  ''), (''object'', JStr ''Singapore'')]])]
            ''triples'' (JArr [])) = Inr items
         \<and> 2 + length (filter raw_empty items) = length items
         \<and> list_all2
              (\<lambda>item t. \<exists>f s ob p. item = JObj f
                  \<and> subject (raw_triple f) = JStr s \<and> s \<noteq> []
                  \<and> object (raw_triple f) = JStr ob \<and> ob \<noteq> []
                  \<and> upper_snake (predicate (raw_triple f)) = Inr p
                  \<and> t = (raw_triple f)
                          \<lparr>subject := JStr (if list_all isspace s then s
                                            else normalize_entity_name s),
                           predicate := p,
                           object := JStr (if list_all isspace ob then ob
                                           else normalize_entity_name ob)\<rparr>)
              (filter (\<lambda>item. \<not> raw_empty item) items)
              [\<lparr>subject = JStr ''techflow'', subject_type = JStr ''Entity'',
                predicate = JStr ''RELATED_TO'', object = JStr ''flowchips'',
                object_type = JStr ''Entity'', properties = JObj []\<rparr>,
               \<lparr>subject = JStr ''  '', subject_type = JStr ''Entity'',
                predicate = JStr ''RELATED_TO'', object = JStr ''singapore'',
                object_type = JStr ''Entity'', properties = JObj []\<rparr>])"
proof -
  let ?d = "[(''triples'',
        JArr [JObj [(''subject'', JStr ''TechFlow Inc.''), (''object'', JStr ''FlowChips'')],
              JObj [(''subject'', JStr ''Acme''), (''object'', JStr [])],
              JObj [(''subject'', JStr ''  ''), (''object'', JStr ''Singapore'')]])]"
  let ?loads = "\<lambda>s::string. (Inr (JObj ?d) :: exn + json)"
  let ?ts = "[\<lparr>subject = JStr ''techflow'', subject_type = JStr ''Entity'',
             predicate = JStr ''RELATED_TO'', object = JStr ''flowchips'',
             object_type = JStr ''Entity'', properties = JObj []\<rparr>,
            \<lparr>subject = JStr ''  '', subject_type = JStr ''Entity'',
             predicate = JStr ''RELATED_TO'', object = JStr ''singapore'',
             object_type = JStr ''Entity'', properties = JObj []\<rparr>]"
  have h: "parse_response True ?loads ''{}'' = Inr ?ts"
    by code_simp
  from parse_response_filter[OF h] obtain js d items where
    l: "?loads js = Inr (JObj d)"
    and it: "iter_items (dict_get d ''triples'' (JArr [])) = Inr items"
    and len: "length ?ts + length (filter raw_empty items) = length items"
    and corr: "list_all2
              (\<lambda>item t. \<exists>f s ob p. item = JObj f
                  \<and> subject (raw_triple f) = JStr s \<and> s \<noteq> []
                  \<and> object (raw_triple f) = JStr ob \<and> ob \<noteq> []
                  \<and> upper_snake (predicate (raw_triple f)) = Inr p
                  \<and> t = (raw_triple f)
                          \<lparr>subject := JStr (if list_all isspace s then s
                                            else normalize_entity_name s),
                           predicate := p,
                           object := JStr (if list_all isspace ob then ob
                                           else normalize_entity_name ob)\<rparr>)
              (filter (\<lambda>item. \<not> raw_empty item) items) ?ts"
    by blast
  from l have d: "d = ?d" by simp
  from len have len2: "2 + length (filter raw_empty items) = length items" by simp
  from it len2 corr h show ?thesis unfolding d by blast
qed

lemma try_extract_no_json:
  "llm_invoke ex (build_prompt ex text) = Inr r \<Longrightarrow> json_match r = None \<Longrightarrow>
     try_extract ex loads text = Inl (ValueError (''No JSON object found in response: '' @ take 200 r))"
  by (simp add: try_extract_def parse_response_def)

lemma try_extract_bad_json:
  "llm_invoke ex (build_prompt ex text) = Inr r \<Longrightarrow> json_match r = Some js \<Longrightarrow>
     loads js = Inl e \<Longrightarrow> try_extract ex loads text = Inl e"
  by (simp add: try_extract_def parse_response_def)

lemma extract_on_failure:
  "try_extract ex loads text = Inl e \<Longrightarrow>
     EntityExtractor_extract ex loads text =
       \<lparr>triples = [], source_text = text,
        error = Some (case e of
                        JSONDecodeError m \<Rightarrow> ''Failed to parse LLM response as JSON: '' @ m
                      | ValueError m \<Rightarrow> m
                      | _ \<Rightarrow> ''Extraction failed: '' @ exn_str e)\<rparr>"
  by (cases e) (simp_all add: EntityExtractor_extract_def)

text \<open>
  Claim C4, as stated: every failure gives a non-empty error. The handler of \<^verbatim>\<open>ValueError\<close>
  stores \<^verbatim>\<open>str(e)\<close> with nothing before it, so when the generation service raises a
  \<^verbatim>\<open>ValueError\<close> that has no message, the error of the result is the empty string.
\<close>

theorem extract_empty_error:
  "EntityExtractor_extract
     \<lparr>normalize = True, llm_invoke = (\<lambda>p. Inl (ValueError [])),
      prompt_head = ''Text: '', prompt_tail = []\<rparr>
     (\<lambda>s. Inl (JSONDecodeError ''Expecting value'')) ''Some text''
   = \<lparr>triples = [], source_text = ''Some text'', error = Some []\<rparr>"
  by (simp add: EntityExtractor_extract_def try_extract_def)

text \<open>
  Claim C4, amended: \<^verbatim>\<open>extract\<close> has no exceptional result (every handler returns the
  result object; an exception here is any subclass of \<^verbatim>\<open>Exception\<close>). When the body of the
  \<^verbatim>\<open>try\<close> fails, the result has no triples, the source text, and an error that is set: a
  response without a JSON object gives the message of \<^verbatim>\<open>_parse_response\<close>, a response that
  \<^verbatim>\<open>json.loads\<close> rejects gives \<^verbatim>\<open>Failed to parse LLM response as JSON: ...\<close>, a
  \<^verbatim>\<open>ValueError\<close> of another origin gives its own message, and an exception of any other
  class gives \<^verbatim>\<open>Extraction failed: ...\<close>. The error is the empty string exactly when the
  exception is a \<^verbatim>\<open>ValueError\<close> with an empty message; in every other failure it is
  non-empty. When the body does not fail, the error stays unset.
\<close>

theorem extract_failure_policy:
  "(llm_invoke ex (build_prompt ex text) = Inr r \<and> json_match r = None \<longrightarrow>
      EntityExtractor_extract ex loads text =
        \<lparr>triples = [], source_text = text,
         error = Some (''No JSON object found in response: '' @ take 200 r)\<rparr>)
   \<and> (llm_invoke ex (build_prompt ex text) = Inr r \<and> json_match r = Some js
        \<and> loads js = Inl (JSONDecodeError m) \<longrightarrow>
      EntityExtractor_extract ex loads text =
        \<lparr>triples = [], source_text = text,
         error = Some (''Failed to parse LLM response as JSON: '' @ m)\<rparr>)
   \<and> (try_extract ex loads text = Inl (ValueError m) \<longrightarrow>
      EntityExtractor_extract ex loads text =
        \<lparr>triples = [], source_text = text, error = Some m\<rparr>)
   \<and> (try_extract ex loads text = Inl e
        \<and> (\<forall>m. e \<noteq> ValueError m) \<and> (\<forall>m. e \<noteq> JSONDecodeError m) \<longrightarrow>
      EntityExtractor_extract ex loads text =
        \<lparr>triples = [], source_text = text,
         error = Some (''Extraction failed: '' @ exn_str e)\<rparr>)
   \<and> (try_extract ex loads text = Inl e \<longrightarrow>
      triples (EntityExtractor_extract ex loads text) = []
      \<and> source_text (EntityExtractor_extract ex loads text) = text
      \<and> (\<exists>msg. error (EntityExtractor_extract ex loads text) = Some msg
                \<and> (msg = [] \<longleftrightarrow> e = ValueError [])))
   \<and> (try_extract ex loads text = Inr ts \<longrightarrow>
      EntityExtractor_extract ex loads text =
        \<lparr>triples = ts, source_text = text, error = None\<rparr>)"
proof (intro conjI impI)
  assume "llm_invoke ex (build_prompt ex text) = Inr r \<and> json_match r = None"
  then have "try_extract ex loads text
      = Inl (ValueError (''No JSON object found in response: '' @ take 200 r))"
    by (simp add: try_extract_no_json)
  from extract_on_failure[OF this]
  show "EntityExtractor_extract ex loads text =
        \<lparr>triples = [], source_text = text,
         error = Some (''No JSON object found in response: '' @ take 200 r)\<rparr>"
    by simp
next
  assume "llm_invoke ex (build_prompt ex text) = Inr r \<and> json_match r = Some js
        \<and> loads js = Inl (JSONDecodeError m)"
  then have "try_extract ex loads text = Inl (JSONDecodeError m)"
    by (simp add: try_extract_bad_json)
  from extract_on_failure[OF this]
  show "EntityExtractor_extract ex loads text =
        \<lparr>triples = [], source_text = text,
         error = Some (''Failed to parse LLM response as JSON: '' @ m)\<rparr>"
    by simp
next
  assume "try_extract ex loads text = Inl (ValueError m)"
  from extract_on_failure[OF this]
  show "EntityExtractor_extract ex loads text =
        \<lparr>triples = [], source_text = text, error = Some m\<rparr>"
    by simp
next
  assume a: "try_extract ex loads text = Inl e
        \<and> (\<forall>m. e \<noteq> ValueError m) \<and> (\<forall>m. e \<noteq> JSONDecodeError m)"
  then have f: "try_extract ex loads text = Inl e" by simp
  from a show "EntityExtractor_extract ex loads text =
        \<lparr>triples = [], source_text = text,
         error = Some (''Extraction failed: '' @ exn_str e)\<rparr>"
    by (cases e) (simp_all add: extract_on_failure[OF f])
next
  assume f: "try_extract ex loads text = Inl e"
  show "triples (EntityExtractor_extract ex loads text) = []"
    by (simp add: extract_on_failure[OF f])
  show "source_text (EntityExtractor_extract ex loads text) = text"
    by (simp add: extract_on_failure[OF f])
  show "\<exists>msg. error (EntityExtractor_extract ex loads text) = Some msg
                \<and> (msg = [] \<longleftrightarrow> e = ValueError [])"
    by (cases e) (simp_all add: extract_on_failure[OF f])
next
  assume "try_extract ex loads text = Inr ts"
  then show "EntityExtractor_extract ex loads text =
        \<lparr>triples = ts, source_text = text, error = None\<rparr>"
    by (simp add: EntityExtractor_extract_def)
qed

theorem extract_failure_policy_witness:
  "EntityExtractor_extract
     \<lparr>normalize = True, llm_invoke = (\<lambda>p. Inr ''This is not valid JSON''),
      prompt_head = ''Text: '', prompt_tail = []\<rparr>
     (\<lambda>s. Inl (JSONDecodeError ''Expecting value'')) ''Some text''
   = \<lparr>triples = [], source_text = ''Some text'',
      error = Some ''No JSON object found in response: This is not valid JSON''\<rparr>
   \<and> EntityExtractor_extract
     \<lparr>normalize = True, llm_invoke = (\<lambda>p. Inr ''Here: {oops}''),
      prompt_head = ''Text: '', prompt_tail = []\<rparr>
     (\<lambda>s. Inl (JSONDecodeError ''Expecting property name'')) ''Some text''
   = \<lparr>triples = [], source_text = ''Some text'',
      error = Some ''Failed to parse LLM response as JSON: Expecting property name''\<rparr>
   \<and> EntityExtractor_extract
     \<lparr>normalize = True, llm_invoke = (\<lambda>p. Inl (OtherError ''timed out'')),
      prompt_head = ''Text: '', prompt_tail = []\<rparr>
     (\<lambda>s. Inl (JSONDecodeError ''Expecting value'')) ''Some text''
   = \<lparr>triples = [], source_text = ''Some text'',
      error = Some ''Extraction failed: timed out''\<rparr>
   \<and> EntityExtractor_extract
     \<lparr>normalize = True, llm_invoke = (\<lambda>p. Inl (ValueError ''bad model name'')),
      prompt_head = ''Text: '', prompt_tail = []\<rparr>
     (\<lambda>s. Inl (JSONDecodeError ''Expecting value'')) ''Some text''
   = \<lparr>triples = [], source_text = ''Some text'', error = Some ''bad model name''\<rparr>"
proof -
  let ?l = "(\<lambda>s. Inl (JSONDecodeError ''Expecting value'')) :: string \<Rightarrow> exn + json"
  let ?l2 = "(\<lambda>s. Inl (JSONDecodeError ''Expecting property name'')) :: string \<Rightarrow> exn + json"
  let ?e1 = "\<lparr>normalize = True, llm_invoke = (\<lambda>p. Inr ''This is not valid JSON''),
      prompt_head = ''Text: '', prompt_tail = []\<rparr>"
  let ?e2 = "\<lparr>normalize = True, llm_invoke = (\<lambda>p. Inr ''Here: {oops}''),
      prompt_head = ''Text: '', prompt_tail = []\<rparr>"
  let ?e3 = "\<lparr>normalize = True, llm_invoke = (\<lambda>p. Inl (OtherError ''timed out'')),
      prompt_head = ''Text: '', prompt_tail = []\<rparr>"
  let ?e4 = "\<lparr>normalize = True, llm_invoke = (\<lambda>p. Inl (ValueError ''bad model name'')),
      prompt_head = ''Text: '', prompt_tail = []\<rparr>"
  have m1: "json_match ''This is not valid JSON'' = None" by code_simp
  have m2: "json_match ''Here: {oops}'' = Some ''{oops}''" by code_simp
  have t3: "try_extract ?e3 ?l ''Some text'' = Inl (OtherError ''timed out'')"
    by (simp add: try_extract_def)
  have t4: "try_extract ?e4 ?l ''Some text'' = Inl (ValueError ''bad model name'')"
    by (simp add: try_extract_def)
  have c1: "EntityExtractor_extract ?e1 ?l ''Some text''
      = \<lparr>triples = [], source_text = ''Some text'',
         error = Some ''No JSON object found in response: This is not valid JSON''\<rparr>"
    using extract_failure_policy[of ?e1 "''Some text''" "''This is not valid JSON''" ?l] m1
    by simp
  have c2: "EntityExtractor_extract ?e2 ?l2 ''Some text''
      = \<lparr>triples = [], source_text = ''Some text'',
         error = Some ''Failed to parse LLM response as JSON: Expecting property name''\<rparr>"
    using extract_failure_policy[of ?e2 "''Some text''" "''Here: {oops}''" ?l2 "''{oops}''"
        "''Expecting property name''"] m2
    by simp
  have c3: "EntityExtractor_extract ?e3 ?l ''Some text''
      = \<lparr>triples = [], source_text = ''Some text'',
         error = Some ''Extraction failed: timed out''\<rparr>"
    using extract_failure_policy[of ?e3 "''Some text''" _ ?l _ _ "OtherError ''timed out''"] t3
    by simp
  have c4: "EntityExtractor_extract ?e4 ?l ''Some text''
      = \<lparr>triples = [], source_text = ''Some text'', error = Some ''bad model name''\<rparr>"
    using extract_failure_policy[of ?e4 "''Some text''" _ ?l _ "''bad model name''"] t4
    by simp
  from c1 c2 c3 c4 show ?thesis by (intro conjI)
qed


section \<open>Properties of the reasoning synthesiser\<close>

lemma search_between_absent:
  "\<not> contains opn s \<Longrightarrow> search_between opn cls s = None"
  by (cases "split_first opn s") (simp_all add: contains_def search_between_def)

text \<open>
  Claim C7: for a response that contains none of the six delimiter tags,
  \<^verbatim>\<open>parse_from_response\<close> returns the raw response as the answer, with empty entities and
  empty reasoning. The function is total: no step of it can raise on a string.
\<close>

theorem parse_from_response_no_tags:
  assumes "\<not> contains ''<entities>'' response" and "\<not> contains ''</entities>'' response"
    and "\<not> contains ''<reasoning>'' response" and "\<not> contains ''</reasoning>'' response"
    and "\<not> contains ''<answer>'' response" and "\<not> contains ''</answer>'' response"
  shows "parse_from_response response =
           \<lparr>answer = response, entities = [], reasoning = [], raw_response = response\<rparr>"
proof -
  have e: "search_between ''<entities>'' ''</entities>'' response = None"
    using assms(1) by (rule search_between_absent)
  have r: "search_between ''<reasoning>'' ''</reasoning>'' response = None"
    using assms(3) by (rule search_between_absent)
  have a: "search_between ''<answer>'' ''</answer>'' response = None"
    using assms(5) by (rule search_between_absent)
  have s: "split_first ''</reasoning>'' response = None"
    using assms(4) by (cases "split_first ''</reasoning>'' response") (simp_all add: contains_def)
  show ?thesis unfolding parse_from_response_def e r a s by simp
qed


section \<open>Properties of the embedding function\<close>

lemma fold_append_map: "fold (\<lambda>x acc. acc @ [f x]) xs acc = acc @ map f xs"
  by (induction xs arbitrary: acc) simp_all

lemma OllamaEmbeddings_call_map:
  "OllamaEmbeddings_call client input =
     map (\<lambda>text. case embed_one client text of Inr v \<Rightarrow> v | Inl e \<Rightarrow> replicate 768 0) input"
  by (simp add: OllamaEmbeddings_call_def fold_append_map)

text \<open>
  Claim C10: the embedding function returns one vector for each input text, in order; where
  getting the embedding of a text fails (loading the client, the call itself, or a response
  without the \<^verbatim>\<open>embedding\<close> key), the vector at that position is 768 zeros.
\<close>

theorem embeddings_total:
  "length (OllamaEmbeddings_call client input) = length input
   \<and> (\<forall>i<length input.
        (\<forall>e. embed_one client (input ! i) = Inl e \<longrightarrow>
              OllamaEmbeddings_call client input ! i = replicate 768 0
              \<and> length (OllamaEmbeddings_call client input ! i) = 768)
        \<and> (\<forall>v. embed_one client (input ! i) = Inr v \<longrightarrow>
              OllamaEmbeddings_call client input ! i = v))"
  by (simp add: OllamaEmbeddings_call_map)

theorem parse_from_response_no_tags_witness:
  "\<not> contains ''<entities>'' ''The strike will impact operations significantly.''
   \<and> \<not> contains ''</reasoning>'' ''The strike will impact operations significantly.''
   \<and> \<not> contains ''<answer>'' ''The strike will impact operations significantly.''
   \<and> parse_from_response ''The strike will impact operations significantly.'' =
        \<lparr>answer = ''The strike will impact operations significantly.'', entities = [],
         reasoning = [], raw_response = ''The strike will impact operations significantly.''\<rparr>"
proof -
  let ?r = "''The strike will impact operations significantly.''"
  have h: "\<not> contains ''<entities>'' ?r" "\<not> contains ''</entities>'' ?r"
    "\<not> contains ''<reasoning>'' ?r" "\<not> contains ''</reasoning>'' ?r"
    "\<not> contains ''<answer>'' ?r" "\<not> contains ''</answer>'' ?r"
    by code_simp+
  from parse_from_response_no_tags[OF h] h show ?thesis by blast
qed

theorem embeddings_total_witness:
  "length (OllamaEmbeddings_call
             (Inr (\<lambda>t. if t = ''a'' then Inr [(''embedding'', [1, 2 :: int])]
                        else Inl (OtherError ''connection refused'')))
             [''a'', ''b'']) = 2
   \<and> OllamaEmbeddings_call
             (Inr (\<lambda>t. if t = ''a'' then Inr [(''embedding'', [1, 2 :: int])]
                        else Inl (OtherError ''connection refused'')))
             [''a'', ''b''] ! 1 = replicate 768 0"
proof -
  let ?c = "Inr (\<lambda>t. if t = ''a'' then Inr [(''embedding'', [1, 2 :: int])]
                        else Inl (OtherError ''connection refused''))
            :: exn + (string \<Rightarrow> exn + (string \<times> int list) list)"
  have e: "embed_one ?c ([''a'', ''b''] ! 1) = Inl (OtherError ''connection refused'')"
    by (simp add: embed_one_def)
  from embeddings_total[of ?c "[''a'', ''b'']"] e show ?thesis by simp
qed



section \<open>Properties of the graph store\<close>

lemma set_props_Nil: "set_props [] ps = ps"
  by (simp add: set_props_def)

lemma props_match_refl: "props_match p p"
  by (simp add: props_match_def list_all_iff)

lemma props_match_iff: "props_match p ps \<longleftrightarrow> (\<forall>k\<in>fst ` set p. map_of ps k = map_of p k)"
  by (simp add: props_match_def list_all_iff)

lemma joins_key: "joins a t b e \<longleftrightarrow> edge_key e = (a, t, b)"
  by (auto simp: joins_def edge_key_def)

lemma edge_key_rel_props: "edge_key (e\<lparr>rel_props := x\<rparr>) = edge_key e"
  by (simp add: edge_key_def)

lemma list_ex_joins: "list_ex (joins a t b) es \<longleftrightarrow> (a, t, b) \<in> set (map edge_key es)"
  by (force simp: list_ex_iff joins_key)

lemma nodes_merge_edge: "nodes (merge_edge t rp ab g) = nodes g"
  by (simp add: merge_edge_def)

lemma edge_keys_merge_edge:
  "edge_keys (merge_edge t rp ab g) = ins_key (fst ab, t, snd ab) (edge_keys g)"
proof (cases "list_ex (joins (fst ab) t (snd ab)) (edges g)")
  case True
  have "map edge_key (map (\<lambda>e. if joins (fst ab) t (snd ab) e
                                 then e\<lparr>rel_props := set_props rp (rel_props e)\<rparr> else e) (edges g))
        = map edge_key (edges g)"
    by (induction "edges g") (simp_all add: edge_key_rel_props)
  with True show ?thesis
    by (simp add: merge_edge_def edge_keys_def ins_key_def list_ex_joins)
next
  case False
  then show ?thesis
    by (simp add: merge_edge_def edge_keys_def ins_key_def list_ex_joins edge_key_def)
qed

lemma nodes_fold_merge_edge: "nodes (fold (merge_edge t rp) rows g) = nodes g"
  by (induction rows arbitrary: g) (simp_all add: nodes_merge_edge)

lemma edge_keys_fold_merge_edge:
  "edge_keys (fold (merge_edge t rp) rows g)
     = fold (\<lambda>ab. ins_key (fst ab, t, snd ab)) rows (edge_keys g)"
  by (induction rows arbitrary: g) (simp_all add: edge_keys_merge_edge)

lemma set_fold_ins: "set (fold (\<lambda>x. ins_key (f x)) xs ks) = set ks \<union> f ` set xs"
  by (induction xs arbitrary: ks) (auto simp: ins_key_def)

lemma fold_ins_id: "f ` set xs \<subseteq> set ks \<Longrightarrow> fold (\<lambda>x. ins_key (f x)) xs ks = ks"
  by (induction xs arbitrary: ks) (auto simp: ins_key_def)

lemma count_ins_key:
  "count_list (ins_key k ks) j = (if j = k \<and> k \<notin> set ks then 1 else count_list ks j)"
  by (auto simp: ins_key_def count_list_0_iff)

lemma count_fold_ins:
  "count_list (fold (\<lambda>x. ins_key (f x)) xs ks) j
     = (if j \<in> set ks then count_list ks j else if j \<in> f ` set xs then 1 else 0)"
proof (induction xs arbitrary: ks)
  case Nil
  then show ?case by (simp add: count_list_0_iff)
next
  case (Cons x xs)
  show ?case
    by (simp add: Cons.IH) (auto simp: ins_key_def count_list_0_iff)
qed

lemma length_fold_ins: "length ks \<le> length (fold (\<lambda>x. ins_key (f x)) xs ks)"
proof (induction xs arbitrary: ks)
  case Nil show ?case by simp
next
  case (Cons x xs)
  have "length ks \<le> length (ins_key (f x) ks)" by (simp add: ins_key_def)
  also have "\<dots> \<le> length (fold (\<lambda>x. ins_key (f x)) xs (ins_key (f x) ks))" by (rule Cons.IH)
  finally show ?case by simp
qed

lemma edges_between_count: "edges_between g a t b = count_list (edge_keys g) (a, t, b)"
proof -
  have "length (filter (joins a t b) es) = count_list (map edge_key es) (a, t, b)" for es
    by (induction es) (auto simp: joins_key)
  then show ?thesis by (simp add: edges_between_def edge_keys_def)
qed

lemma node_matches_new:
  "node_matches l' p' \<lparr>node_id = i, labels = [l], node_props = p\<rparr> \<longleftrightarrow> l' = l \<and> props_match p' p"
  by (auto simp: node_matches_def)

lemma match_nodes_append:
  "match_nodes (g\<lparr>nodes := nodes g @ [n]\<rparr>) l p
     = match_nodes g l p @ (if node_matches l p n then [node_id n] else [])"
  by (simp add: match_nodes_def)

lemma merge_pattern_cases:
  assumes "merge_pattern g l p = (g', ms)"
  obtains (matched) "match_nodes g l p \<noteq> []" "g' = g" "ms = match_nodes g l p"
    | (created) "match_nodes g l p = []"
        "g' = g\<lparr>nodes := nodes g @ [\<lparr>node_id = fresh_id g, labels = [l], node_props = p\<rparr>]\<rparr>"
        "ms = [fresh_id g]"
  using assms by (auto simp: merge_pattern_def Let_def split: if_splits)

lemma merge_pattern_match:
  assumes "merge_pattern g l p = (g', ms)"
  shows "match_nodes g' l p = ms" and "ms \<noteq> []" and "edges g' = edges g"
    and "\<exists>extra. nodes g' = nodes g @ extra"
  using assms
  by (cases rule: merge_pattern_cases;
      simp add: match_nodes_append node_matches_new props_match_refl)+

lemma merge_pattern_present:
  "match_nodes g l p \<noteq> [] \<Longrightarrow> merge_pattern g l p = (g, match_nodes g l p)"
  by (simp add: merge_pattern_def)

subsection \<open>Path query\<close>

lemma extend_path_length: "q \<in> set (extend_path g p) \<Longrightarrow> length (snd q) = Suc (length (snd p))"
  by (auto simp: extend_path_def Let_def split: if_splits)

lemma paths_of_length_length: "p \<in> set (paths_of_length g a k) \<Longrightarrow> length (snd p) = k"
proof (induction k arbitrary: p)
  case 0 then show ?case by simp
next
  case (Suc k)
  then obtain q where "q \<in> set (paths_of_length g a k)" "p \<in> set (extend_path g q)" by auto
  with Suc.IH[of q] extend_path_length[of p g q] show ?case by simp
qed

lemma match_paths_rows:
  assumes "r \<in> set (match_paths g fl fp tlab tp n)"
  shows "path_length r = length (relationships r) \<and> 1 \<le> path_length r \<and> path_length r \<le> n"
proof -
  from assms obtain a k p where k: "k \<in> set [1..<Suc n]"
    and p: "p \<in> set (paths_of_length g a k)"
    and r: "r = \<lparr>row_nodes = fst p, relationships = map (\<lambda>i. rel_type (edges g ! i)) (snd p),
                  path_length = length (snd p)\<rparr>"
    by (auto simp: match_paths_def)
  from paths_of_length_length[OF p] k r show ?thesis by auto
qed

text \<open>
  Claim C6: whenever the path query returns, it returns at most 10 rows, in order of
  non-decreasing hop count; the hop count of a row is the number of its relationships, at
  least one and at most the bound. (It returns for every bound that is not negative.)
\<close>

theorem get_paths_between_cap:
  assumes "get_paths_between g from_label from_props to_label to_props max_hops = Inr rows"
  shows "length rows \<le> 10
         \<and> sorted (map path_length rows)
         \<and> (\<forall>r\<in>set rows. path_length r = length (relationships r)
                            \<and> 1 \<le> path_length r \<and> int (path_length r) \<le> max_hops)"
proof -
  let ?ms = "match_paths g from_label from_props to_label to_props (nat max_hops)"
  from assms have nn: "0 \<le> max_hops" and rows: "rows = take 10 (sort_key path_length ?ms)"
    by (auto simp: get_paths_between_def split: if_splits)
  have "length rows \<le> 10" using rows by simp
  moreover have "sorted (map path_length rows)"
    unfolding rows take_map[symmetric] by (rule sorted_wrt_take) (rule sorted_sort_key)
  moreover have "\<forall>r\<in>set rows. path_length r = length (relationships r)
                            \<and> 1 \<le> path_length r \<and> int (path_length r) \<le> max_hops"
  proof
    fix r assume "r \<in> set rows"
    then have "r \<in> set (sort_key path_length ?ms)" unfolding rows by (rule in_set_takeD)
    then have "r \<in> set ?ms" by simp
    from match_paths_rows[OF this] nn show "path_length r = length (relationships r)
                            \<and> 1 \<le> path_length r \<and> int (path_length r) \<le> max_hops" by auto
  qed
  ultimately show ?thesis by blast
qed

lemma get_paths_between_returns:
  "0 \<le> max_hops \<Longrightarrow> \<exists>rows. get_paths_between g fl fp tlab tp max_hops = Inr rows"
  by (simp add: get_paths_between_def)


theorem get_paths_between_cap_witness:
  "get_paths_between
     \<lparr>nodes = [\<lparr>node_id = 1, labels = [''Company''], node_props = [(''name'', JStr ''techflow'')]\<rparr>,
               \<lparr>node_id = 2, labels = [''Location''], node_props = [(''name'', JStr ''singapore'')]\<rparr>,
               \<lparr>node_id = 3, labels = [''Product''], node_props = [(''name'', JStr ''flowchips'')]\<rparr>,
               \<lparr>node_id = 4, labels = [''Company''], node_props = [(''name'', JStr ''globaltech'')]\<rparr>],
      edges = [\<lparr>src = 1, dst = 2, rel_type = ''OPERATES_AT'', rel_props = []\<rparr>,
               \<lparr>src = 1, dst = 3, rel_type = ''MANUFACTURES'', rel_props = []\<rparr>,
               \<lparr>src = 4, dst = 3, rel_type = ''DEPENDS_ON'', rel_props = []\<rparr>]\<rparr>
     ''Company'' [] ''Location'' [] 3
   = Inr [\<lparr>row_nodes = [1, 2], relationships = [''OPERATES_AT''], path_length = 1\<rparr>,
          \<lparr>row_nodes = [4, 3, 1, 2],
           relationships = [''DEPENDS_ON'', ''MANUFACTURES'', ''OPERATES_AT''], path_length = 3\<rparr>]
   \<and> sorted (map path_length
        [\<lparr>row_nodes = [1, 2], relationships = [''OPERATES_AT''], path_length = 1\<rparr>,
         \<lparr>row_nodes = [4, 3, 1, 2],
          relationships = [''DEPENDS_ON'', ''MANUFACTURES'', ''OPERATES_AT''], path_length = 3\<rparr>])"
proof -
  have h: "get_paths_between
     \<lparr>nodes = [\<lparr>node_id = 1, labels = [''Company''], node_props = [(''name'', JStr ''techflow'')]\<rparr>,
               \<lparr>node_id = 2, labels = [''Location''], node_props = [(''name'', JStr ''singapore'')]\<rparr>,
               \<lparr>node_id = 3, labels = [''Product''], node_props = [(''name'', JStr ''flowchips'')]\<rparr>,
               \<lparr>node_id = 4, labels = [''Company''], node_props = [(''name'', JStr ''globaltech'')]\<rparr>],
      edges = [\<lparr>src = 1, dst = 2, rel_type = ''OPERATES_AT'', rel_props = []\<rparr>,
               \<lparr>src = 1, dst = 3, rel_type = ''MANUFACTURES'', rel_props = []\<rparr>,
               \<lparr>src = 4, dst = 3, rel_type = ''DEPENDS_ON'', rel_props = []\<rparr>]\<rparr>
     ''Company'' [] ''Location'' [] 3
   = Inr [\<lparr>row_nodes = [1, 2], relationships = [''OPERATES_AT''], path_length = 1\<rparr>,
          \<lparr>row_nodes = [4, 3, 1, 2],
           relationships = [''DEPENDS_ON'', ''MANUFACTURES'', ''OPERATES_AT''], path_length = 3\<rparr>]"
    by code_simp
  from get_paths_between_cap[OF h] h show ?thesis by blast
qed

subsection \<open>Merging a relationship\<close>

lemma match_nodes_cong: "nodes g = nodes h \<Longrightarrow> match_nodes g l p = match_nodes h l p"
  by (simp add: match_nodes_def)

lemma edge_keys_cong: "edges g = edges h \<Longrightarrow> edge_keys g = edge_keys h"
  by (simp add: edge_keys_def)

lemma match_nodes_nonempty_iff:
  "match_nodes g l p \<noteq> [] \<longleftrightarrow> (\<exists>n\<in>set (nodes g). node_matches l p n)"
  by (auto simp: match_nodes_def filter_empty_conv)

lemma merge_relationship_unfold:
  assumes "merge_pattern g fl fp = (g1, as)" and "merge_pattern g1 tlab tp = (g2, bs)"
  shows "merge_relationship g fl fp tlab tp rt rp
           = fold (merge_edge rt (case rp of None \<Rightarrow> [] | Some x \<Rightarrow> x)) (List.product as bs) g2"
  by (simp add: merge_relationship_def assms)

lemma merge_relationship_facts:
  fixes rt :: string and rp :: "props option"
  assumes 1: "merge_pattern g fl fp = (g1, as)" and 2: "merge_pattern g1 tlab tp = (g2, bs)"
  defines "r \<equiv> merge_relationship g fl fp tlab tp rt rp"
  shows "nodes r = nodes g2"
    and "edge_keys r = fold (\<lambda>ab. ins_key (fst ab, rt, snd ab)) (List.product as bs) (edge_keys g)"
    and "as \<noteq> []" and "bs \<noteq> []"
    and "match_nodes r tlab tp = bs"
    and "set as \<subseteq> set (match_nodes r fl fp)"
    and "set (map fst tp) \<subseteq> set (map fst fp) \<Longrightarrow> match_nodes r fl fp = as"
proof -
  have r: "r = fold (merge_edge rt (case rp of None \<Rightarrow> [] | Some x \<Rightarrow> x)) (List.product as bs) g2"
    unfolding r_def by (rule merge_relationship_unfold[OF 1 2])
  show n: "nodes r = nodes g2" unfolding r by (rule nodes_fold_merge_edge)
  have e: "edges g2 = edges g"
    using merge_pattern_match(3)[OF 1] merge_pattern_match(3)[OF 2] by simp
  show "edge_keys r = fold (\<lambda>ab. ins_key (fst ab, rt, snd ab)) (List.product as bs) (edge_keys g)"
    unfolding r edge_keys_fold_merge_edge by (simp add: edge_keys_cong[OF e])
  show "as \<noteq> []" by (rule merge_pattern_match(2)[OF 1])
  show "bs \<noteq> []" by (rule merge_pattern_match(2)[OF 2])
  show "match_nodes r tlab tp = bs"
    using match_nodes_cong[OF n] merge_pattern_match(1)[OF 2] by simp
  have as: "match_nodes g1 fl fp = as" by (rule merge_pattern_match(1)[OF 1])
  from 2 show "set as \<subseteq> set (match_nodes r fl fp)"
  proof (cases rule: merge_pattern_cases)
    case matched
    then show ?thesis using match_nodes_cong[OF n] as by simp
  next
    case created
    then show ?thesis using match_nodes_cong[OF n] as by (simp add: match_nodes_append)
  qed
  show "match_nodes r fl fp = as" if sub: "set (map fst tp) \<subseteq> set (map fst fp)"
    using 2
  proof (cases rule: merge_pattern_cases)
    case matched
    then show ?thesis using match_nodes_cong[OF n] as by simp
  next
    case created
    have "\<not> (fl = tlab \<and> props_match fp tp)"
    proof
      assume a: "fl = tlab \<and> props_match fp tp"
      from \<open>as \<noteq> []\<close> as obtain m where m: "m \<in> set (nodes g1)" "node_matches fl fp m"
        by (auto simp: match_nodes_nonempty_iff)
      have "props_match tp (node_props m)"
        unfolding props_match_iff
      proof
        fix k assume k: "k \<in> fst ` set tp"
        with sub have kf: "k \<in> fst ` set fp" by auto
        from m(2) kf have "map_of (node_props m) k = map_of fp k"
          by (auto simp: node_matches_def props_match_iff)
        moreover from a kf have "map_of tp k = map_of fp k" by (auto simp: props_match_iff)
        ultimately show "map_of (node_props m) k = map_of tp k" by simp
      qed
      with m a have "node_matches tlab tp m" by (simp add: node_matches_def)
      with m(1) have "match_nodes g1 tlab tp \<noteq> []" by (auto simp: match_nodes_nonempty_iff)
      with created(1) show False by simp
    qed
    then show ?thesis
      using created match_nodes_cong[OF n] as
      by (simp add: match_nodes_append node_matches_new)
  qed
qed

lemma merge_relationship_again:
  assumes "match_nodes g fl fp \<noteq> []" and "match_nodes g tlab tp \<noteq> []"
  shows "nodes (merge_relationship g fl fp tlab tp rt rp) = nodes g"
    and "edge_keys (merge_relationship g fl fp tlab tp rt rp)
           = fold (\<lambda>ab. ins_key (fst ab, rt, snd ab))
                  (List.product (match_nodes g fl fp) (match_nodes g tlab tp)) (edge_keys g)"
proof -
  have 1: "merge_pattern g fl fp = (g, match_nodes g fl fp)"
    by (rule merge_pattern_present[OF assms(1)])
  have 2: "merge_pattern g tlab tp = (g, match_nodes g tlab tp)"
    by (rule merge_pattern_present[OF assms(2)])
  show "nodes (merge_relationship g fl fp tlab tp rt rp) = nodes g"
    by (rule merge_relationship_facts(1)[OF 1 2])
  show "edge_keys (merge_relationship g fl fp tlab tp rt rp)
           = fold (\<lambda>ab. ins_key (fst ab, rt, snd ab))
                  (List.product (match_nodes g fl fp) (match_nodes g tlab tp)) (edge_keys g)"
    by (rule merge_relationship_facts(2)[OF 1 2])
qed

lemma merge_node_plain: "fst (merge_node g l p None None) = fst (merge_pattern g l p)"
  by (simp add: merge_node_def merge_pattern_def set_props_Nil Let_def cong: if_cong)

text \<open>
  Claim C9: \<^verbatim>\<open>merge_relationship\<close> merges the two endpoint nodes and then the
  relationship, so in any store, also one where no node was merged before, the call leaves
  a node for each endpoint pattern and a relationship of the given type between them.
  A second call with the same arguments creates no node, and no call creates a second
  relationship of one type between two nodes that already have one: every count of
  relationships between two nodes stays as it was or goes from 0 to 1. When the to-pattern
  has no property key beyond those of the from-pattern (as with the \<^verbatim>\<open>name\<close> key of
  ingestion), the second call leaves the relationships exactly as they are. Merging one
  node twice gives the node count of merging it once.
\<close>

theorem merge_relationship_no_duplicates:
  "(\<exists>a\<in>set (match_nodes (merge_relationship g fl fp tlab tp rt rp) fl fp).
      \<exists>b\<in>set (match_nodes (merge_relationship g fl fp tlab tp rt rp) tlab tp).
        1 \<le> edges_between (merge_relationship g fl fp tlab tp rt rp) a rt b)
   \<and> nodes (merge_relationship (merge_relationship g fl fp tlab tp rt rp) fl fp tlab tp rt rp)
       = nodes (merge_relationship g fl fp tlab tp rt rp)
   \<and> (\<forall>a t b. edges_between (merge_relationship g fl fp tlab tp rt rp) a t b = edges_between g a t b
              \<or> (edges_between g a t b = 0 \<and> t = rt
                  \<and> edges_between (merge_relationship g fl fp tlab tp rt rp) a t b = 1))
   \<and> (set (map fst tp) \<subseteq> set (map fst fp) \<longrightarrow>
        edge_keys (merge_relationship (merge_relationship g fl fp tlab tp rt rp) fl fp tlab tp rt rp)
          = edge_keys (merge_relationship g fl fp tlab tp rt rp))
   \<and> node_count (fst (merge_node (fst (merge_node g fl fp None None)) fl fp None None))
       = node_count (fst (merge_node g fl fp None None))"
proof -
  let ?r = "merge_relationship g fl fp tlab tp rt rp"
  obtain g1 as where 1: "merge_pattern g fl fp = (g1, as)" by (cases "merge_pattern g fl fp")
  obtain g2 bs where 2: "merge_pattern g1 tlab tp = (g2, bs)" by (cases "merge_pattern g1 tlab tp")
  note f = merge_relationship_facts[OF 1 2]
  have keys: "edge_keys ?r = fold (\<lambda>ab. ins_key (fst ab, rt, snd ab)) (List.product as bs) (edge_keys g)"
    by (rule f(2))
  have sub_a: "set as \<subseteq> set (match_nodes ?r fl fp)" by (rule f(6))
  have ne_a: "match_nodes ?r fl fp \<noteq> []" using f(3) sub_a by (cases as) auto
  have eq_b: "match_nodes ?r tlab tp = bs" by (rule f(5))
  have ne_b: "match_nodes ?r tlab tp \<noteq> []" using f(4) eq_b by simp
  have A: "\<exists>a\<in>set (match_nodes ?r fl fp). \<exists>b\<in>set (match_nodes ?r tlab tp). 1 \<le> edges_between ?r a rt b"
  proof -
    from f(3) obtain a where a: "a \<in> set as" by (cases as) auto
    from f(4) obtain b where b: "b \<in> set bs" by (cases bs) auto
    have "(a, rt, b) \<in> set (edge_keys ?r)"
      unfolding keys set_fold_ins using a b by force
    then have "1 \<le> edges_between ?r a rt b"
      unfolding edges_between_count
      by (metis count_list_0_iff not_less_eq_eq le_zero_eq One_nat_def)
    with a b eq_b sub_a show ?thesis by auto
  qed
  have B: "nodes (merge_relationship ?r fl fp tlab tp rt rp) = nodes ?r"
    by (rule merge_relationship_again(1)[OF ne_a ne_b])
  have C: "\<forall>a t b. edges_between ?r a t b = edges_between g a t b
              \<or> (edges_between g a t b = 0 \<and> t = rt \<and> edges_between ?r a t b = 1)"
    unfolding edges_between_count keys count_fold_ins
    by (auto simp: count_list_0_iff)
  have D: "edge_keys (merge_relationship ?r fl fp tlab tp rt rp) = edge_keys ?r"
    if sub: "set (map fst tp) \<subseteq> set (map fst fp)"
  proof -
    have as': "match_nodes ?r fl fp = as" by (rule f(7)[OF sub])
    have "(\<lambda>ab. (fst ab, rt, snd ab)) ` set (List.product as bs) \<subseteq> set (edge_keys ?r)"
      unfolding keys set_fold_ins by blast
    then have "fold (\<lambda>ab. ins_key (fst ab, rt, snd ab)) (List.product as bs) (edge_keys ?r) = edge_keys ?r"
      by (rule fold_ins_id)
    then show ?thesis
      unfolding merge_relationship_again(2)[OF ne_a ne_b] as' eq_b .
  qed
  have E: "node_count (fst (merge_node (fst (merge_node g fl fp None None)) fl fp None None))
       = node_count (fst (merge_node g fl fp None None))"
  proof -
    have "fst (merge_node g fl fp None None) = g1" using 1 by (simp add: merge_node_plain)
    moreover have "match_nodes g1 fl fp \<noteq> []"
      using merge_pattern_match(1,2)[OF 1] by simp
    then have "fst (merge_pattern g1 fl fp) = g1" by (simp add: merge_pattern_present)
    ultimately show ?thesis by (simp add: merge_node_plain)
  qed
  from A B C D E show ?thesis by blast
qed

theorem merge_relationship_no_duplicates_witness:
  "set (map fst [(''name'', JStr ''singapore'')]) \<subseteq> set (map fst [(''name'', JStr ''techflow'')])
   \<and> merge_relationship \<lparr>nodes = [], edges = []\<rparr>
        ''Company'' [(''name'', JStr ''techflow'')]
        ''Location'' [(''name'', JStr ''singapore'')] ''OPERATES_AT'' None
      = \<lparr>nodes = [\<lparr>node_id = 1, labels = [''Company''], node_props = [(''name'', JStr ''techflow'')]\<rparr>,
                  \<lparr>node_id = 2, labels = [''Location''], node_props = [(''name'', JStr ''singapore'')]\<rparr>],
         edges = [\<lparr>src = 1, dst = 2, rel_type = ''OPERATES_AT'', rel_props = []\<rparr>]\<rparr>
   \<and> edge_keys (merge_relationship
        (merge_relationship \<lparr>nodes = [], edges = []\<rparr>
           ''Company'' [(''name'', JStr ''techflow'')]
           ''Location'' [(''name'', JStr ''singapore'')] ''OPERATES_AT'' None)
        ''Company'' [(''name'', JStr ''techflow'')]
        ''Location'' [(''name'', JStr ''singapore'')] ''OPERATES_AT'' None)
      = [(1, ''OPERATES_AT'', 2)]
   \<and> nodes (merge_relationship
        (merge_relationship \<lparr>nodes = [], edges = []\<rparr>
           ''Company'' [(''name'', JStr ''techflow'')]
           ''Location'' [(''name'', JStr ''singapore'')] ''OPERATES_AT'' None)
        ''Company'' [(''name'', JStr ''techflow'')]
        ''Location'' [(''name'', JStr ''singapore'')] ''OPERATES_AT'' None)
      = [\<lparr>node_id = 1, labels = [''Company''], node_props = [(''name'', JStr ''techflow'')]\<rparr>,
         \<lparr>node_id = 2, labels = [''Location''], node_props = [(''name'', JStr ''singapore'')]\<rparr>]"
proof -
  have h: "set (map fst [(''name'', JStr ''singapore'')]) \<subseteq> set (map fst [(''name'', JStr ''techflow'')])"
    by simp
  have e: "merge_relationship \<lparr>nodes = [], edges = []\<rparr>
        ''Company'' [(''name'', JStr ''techflow'')]
        ''Location'' [(''name'', JStr ''singapore'')] ''OPERATES_AT'' None
      = \<lparr>nodes = [\<lparr>node_id = 1, labels = [''Company''], node_props = [(''name'', JStr ''techflow'')]\<rparr>,
                  \<lparr>node_id = 2, labels = [''Location''], node_props = [(''name'', JStr ''singapore'')]\<rparr>],
         edges = [\<lparr>src = 1, dst = 2, rel_type = ''OPERATES_AT'', rel_props = []\<rparr>]\<rparr>"
    by code_simp
  have k: "edge_keys \<lparr>nodes = [\<lparr>node_id = 1, labels = [''Company''], node_props = [(''name'', JStr ''techflow'')]\<rparr>,
                  \<lparr>node_id = 2, labels = [''Location''], node_props = [(''name'', JStr ''singapore'')]\<rparr>],
         edges = [\<lparr>src = 1, dst = 2, rel_type = ''OPERATES_AT'', rel_props = []\<rparr>]\<rparr>
        = [(1, ''OPERATES_AT'', 2)]"
    by (simp add: edge_keys_def edge_key_def)
  from merge_relationship_no_duplicates[of "\<lparr>nodes = [], edges = []\<rparr>"
        "''Company''" "[(''name'', JStr ''techflow'')]"
        "''Location''" "[(''name'', JStr ''singapore'')]" "''OPERATES_AT''" None] h
  have "nodes (merge_relationship
        (merge_relationship \<lparr>nodes = [], edges = []\<rparr>
           ''Company'' [(''name'', JStr ''techflow'')]
           ''Location'' [(''name'', JStr ''singapore'')] ''OPERATES_AT'' None)
        ''Company'' [(''name'', JStr ''techflow'')]
        ''Location'' [(''name'', JStr ''singapore'')] ''OPERATES_AT'' None)
      = nodes (merge_relationship \<lparr>nodes = [], edges = []\<rparr>
           ''Company'' [(''name'', JStr ''techflow'')]
           ''Location'' [(''name'', JStr ''singapore'')] ''OPERATES_AT'' None)"
    and "edge_keys (merge_relationship
        (merge_relationship \<lparr>nodes = [], edges = []\<rparr>
           ''Company'' [(''name'', JStr ''techflow'')]
           ''Location'' [(''name'', JStr ''singapore'')] ''OPERATES_AT'' None)
        ''Company'' [(''name'', JStr ''techflow'')]
        ''Location'' [(''name'', JStr ''singapore'')] ''OPERATES_AT'' None)
      = edge_keys (merge_relationship \<lparr>nodes = [], edges = []\<rparr>
           ''Company'' [(''name'', JStr ''techflow'')]
           ''Location'' [(''name'', JStr ''singapore'')] ''OPERATES_AT'' None)"
    by blast+
  then show ?thesis using h e k by simp
qed

text \<open>
  The side condition on the keys matters for the count of relationships only: when the
  to-pattern is the from-pattern with one more key, the node the first call creates for the
  to-pattern is matched by the from-pattern in the second call, and the second call adds
  the relationship for that new row. No relationship is duplicated by it.
\<close>

lemma repeat_with_wider_to_pattern:
  "edge_keys (merge_relationship \<lparr>nodes = [], edges = []\<rparr>
      ''C'' [(''name'', JStr ''x'')] ''C'' [(''name'', JStr ''x''), (''tier'', JNum 1)] ''T'' None)
     = [(1, ''T'', 2)]
   \<and> edge_keys (merge_relationship
        (merge_relationship \<lparr>nodes = [], edges = []\<rparr>
          ''C'' [(''name'', JStr ''x'')] ''C'' [(''name'', JStr ''x''), (''tier'', JNum 1)] ''T'' None)
        ''C'' [(''name'', JStr ''x'')] ''C'' [(''name'', JStr ''x''), (''tier'', JNum 1)] ''T'' None)
     = [(1, ''T'', 2), (2, ''T'', 2)]"
  by code_simp



section \<open>Properties of the ingestion pipeline\<close>

subsection \<open>Ingestion: what reaches the result\<close>

lemma ingest_triple_keeps:
  "errors (snd (ingest_triple p t gr)) = errors (snd gr)
   \<and> success (snd (ingest_triple p t gr)) = success (snd gr)
   \<and> documents_added (snd (ingest_triple p t gr)) = documents_added (snd gr)"
  by (simp add: ingest_triple_def Let_def split: prod.splits)

lemma fold_ingest_triple_keeps:
  "errors (snd (fold (ingest_triple p) ts gr)) = errors (snd gr)
   \<and> success (snd (fold (ingest_triple p) ts gr)) = success (snd gr)
   \<and> documents_added (snd (fold (ingest_triple p) ts gr)) = documents_added (snd gr)"
  by (induction ts arbitrary: gr) (simp_all add: ingest_triple_keeps)

lemma create_node_ok: "snd (create_node p g label name) = (node_key p label name \<noteq> None)"
  by (simp add: create_node_def node_key_def split: option.splits)

lemma create_relationship_ok: "snd (create_relationship p g t) = (rel_key p t \<noteq> None)"
  by (simp add: create_relationship_def rel_key_def split: option.splits sum.splits)

lemma ingest_triple_counts:
  "nodes_created (snd (ingest_triple p t gr)) = nodes_created (snd gr) + merges_done p t
   \<and> relationships_created (snd (ingest_triple p t gr))
       = relationships_created (snd gr) + (if rel_key p t \<noteq> None then 1 else 0)"
proof -
  obtain g1 ok1 where 1: "create_node p (fst gr) (subject_type t) (subject t) = (g1, ok1)"
    by (cases "create_node p (fst gr) (subject_type t) (subject t)")
  obtain g2 ok2 where 2: "create_node p g1 (object_type t) (object t) = (g2, ok2)"
    by (cases "create_node p g1 (object_type t) (object t)")
  obtain g3 ok3 where 3: "create_relationship p g2 t = (g3, ok3)"
    by (cases "create_relationship p g2 t")
  have o1: "ok1 = (node_key p (subject_type t) (subject t) \<noteq> None)"
    using create_node_ok[of p "fst gr" "subject_type t" "subject t"] 1 by simp
  have o2: "ok2 = (node_key p (object_type t) (object t) \<noteq> None)"
    using create_node_ok[of p g1 "object_type t" "object t"] 2 by simp
  have o3: "ok3 = (rel_key p t \<noteq> None)"
    using create_relationship_ok[of p g2 t] 3 by simp
  show ?thesis
    by (simp add: ingest_triple_def 1 2 3 o1 o2 o3 merges_done_def Let_def)
qed

lemma fold_ingest_triple_counts:
  "nodes_created (snd (fold (ingest_triple p) ts gr))
     = nodes_created (snd gr) + sum_list (map (merges_done p) ts)
   \<and> relationships_created (snd (fold (ingest_triple p) ts gr))
       = relationships_created (snd gr) + length (filter (\<lambda>t. rel_key p t \<noteq> None) ts)"
  by (induction ts arbitrary: gr) (simp_all add: ingest_triple_counts)

lemma graph_step_result:
  assumes "graph_step p ts (g, r) = Inr (g', r')"
  shows "success r' = (success r \<and> (ts = [] \<or> graph_manager_given p \<or> close_error p = None))
    \<and> errors r' = errors r @
           (if ts \<noteq> [] \<and> \<not> graph_manager_given p
            then (case close_error p of None \<Rightarrow> []
                  | Some e \<Rightarrow> [''Graph database error: '' @ exn_str e])
            else [])
    \<and> nodes_created r' = nodes_created r + sum_list (map (merges_done p) ts)
    \<and> relationships_created r'
           = relationships_created r + length (filter (\<lambda>t. rel_key p t \<noteq> None) ts)
    \<and> documents_added r' = documents_added r
    \<and> g' = fst (fold (ingest_triple p) ts (g, r))"
proof -
  let ?f = "fold (ingest_triple p) ts (g, r)"
  note k = fold_ingest_triple_keeps[of p ts "(g, r)"]
  note c = fold_ingest_triple_counts[of p ts "(g, r)"]
  consider (empty) "ts = []" | (given) "ts \<noteq> []" "graph_manager_given p"
    | (own) "ts \<noteq> []" "\<not> graph_manager_given p"
    by blast
  then have "success r' = (success r \<and> (ts = [] \<or> graph_manager_given p \<or> close_error p = None))
    \<and> errors r' = errors r @
           (if ts \<noteq> [] \<and> \<not> graph_manager_given p
            then (case close_error p of None \<Rightarrow> []
                  | Some e \<Rightarrow> [''Graph database error: '' @ exn_str e])
            else [])
    \<and> nodes_created r' = nodes_created r + sum_list (map (merges_done p) ts)
    \<and> relationships_created r'
           = relationships_created r + length (filter (\<lambda>t. rel_key p t \<noteq> None) ts)
    \<and> documents_added r' = documents_added r
    \<and> g' = fst ?f"
  proof cases
    case empty
    with assms show ?thesis by (simp add: graph_step_def)
  next
    case given
    with assms have "?f = (g', r')" by (simp add: graph_step_def)
    with k c given show ?thesis by simp
  next
    case own
    with assms have ce: "connect_error p = None"
      by (cases "connect_error p") (simp_all add: graph_step_def)
    show ?thesis
    proof (cases "close_error p")
      case None
      with own ce assms have "?f = (g', r')" by (simp add: graph_step_def)
      with k c own None show ?thesis by simp
    next
      case (Some e)
      with own ce assms have "g' = fst ?f"
        and "r' = (snd ?f)\<lparr>errors := errors (snd ?f) @ [''Graph database error: '' @ exn_str e],
                            success := False\<rparr>"
        by (simp_all add: graph_step_def Let_def)
      with k c own Some show ?thesis by simp
    qed
  qed
  then show ?thesis .
qed






subsection \<open>Ingestion: what a second run finds in the graph\<close>

lemma name_match_cong: "nodes g = nodes h \<Longrightarrow> name_match g k = name_match h k"
  unfolding name_match_def by (rule match_nodes_cong)

lemma node_matches_name_new:
  "node_matches l' [(''name'', v')] \<lparr>node_id = i, labels = [l], node_props = [(''name'', v)]\<rparr>
     \<longleftrightarrow> l' = l \<and> v' = v"
  by (auto simp: node_matches_new props_match_def)

lemma extends_refl: "extends g g"
  unfolding extends_def by blast

lemma extendsD: "extends g g' \<Longrightarrow> name_match g k \<noteq> [] \<Longrightarrow> name_match g' k = name_match g k"
  unfolding extends_def by blast

lemma extends_edges: "extends g g' \<Longrightarrow> set (edge_keys g) \<subseteq> set (edge_keys g')"
  unfolding extends_def by blast

lemma extendsI:
  "(\<And>k. name_match g k \<noteq> [] \<Longrightarrow> name_match g' k = name_match g k) \<Longrightarrow>
   set (edge_keys g) \<subseteq> set (edge_keys g') \<Longrightarrow> extends g g'"
  unfolding extends_def by blast

lemma extends_trans:
  assumes "extends g g'" and "extends g' g''"
  shows "extends g g''"
proof -
  have "name_match g'' k = name_match g k" if k: "name_match g k \<noteq> []" for k
  proof -
    from assms(1) k have 1: "name_match g' k = name_match g k" by (rule extendsD)
    with k have "name_match g' k \<noteq> []" by simp
    with assms(2) have "name_match g'' k = name_match g' k" by (rule extendsD)
    with 1 show ?thesis by simp
  qed
  moreover have "set (edge_keys g) \<subseteq> set (edge_keys g'')"
    using extends_edges[OF assms(1)] extends_edges[OF assms(2)] by (rule subset_trans)
  ultimately show ?thesis by (rule extendsI)
qed

lemma extends_cong:
  "nodes g' = nodes g \<Longrightarrow> set (edge_keys g) \<subseteq> set (edge_keys g') \<Longrightarrow> extends g g'"
proof (rule extendsI)
  fix k assume "nodes g' = nodes g"
  then show "name_match g' k = name_match g k" by (rule name_match_cong)
qed

lemma merge_pattern_name:
  assumes "merge_pattern g l [(''name'', v)] = (g', ms)"
  shows "extends g g'" and "name_match g' (l, v) = ms" and "ms \<noteq> []"
    and "name_match g (l, v) \<noteq> [] \<Longrightarrow> g' = g"
proof -
  show "name_match g' (l, v) = ms" "ms \<noteq> []"
    using merge_pattern_match(1,2)[OF assms] by (simp_all add: name_match_def)
  show "name_match g (l, v) \<noteq> [] \<Longrightarrow> g' = g"
    using assms by (simp add: name_match_def merge_pattern_def)
  from assms show "extends g g'"
  proof (cases rule: merge_pattern_cases)
    case matched
    then show ?thesis by (simp add: extends_refl)
  next
    case created
    have "name_match g' k = name_match g k" if "name_match g k \<noteq> []" for k
    proof -
      have "k \<noteq> (l, v)" using that created(1) by (auto simp: name_match_def)
      then have "\<not> node_matches (fst k) [(''name'', snd k)]
                   \<lparr>node_id = fresh_id g, labels = [l], node_props = [(''name'', v)]\<rparr>"
        by (cases k) (simp add: node_matches_name_new)
      then show ?thesis using created(2) by (simp add: name_match_def match_nodes_append)
    qed
    moreover have "edge_keys g' = edge_keys g" using created(2) by (simp add: edge_keys_def)
    ultimately show ?thesis by (intro extendsI) simp_all
  qed
qed

lemma create_node_graph:
  assumes "create_node p g label name = (g', ok)"
  shows "extends g g'"
    and "\<forall>k. node_key p label name = Some k \<longrightarrow> name_match g' k \<noteq> []"
    and "(\<forall>k. node_key p label name = Some k \<longrightarrow> name_match g k \<noteq> []) \<Longrightarrow> g' = g"
proof -
  show "extends g g'"
    and "\<forall>k. node_key p label name = Some k \<longrightarrow> name_match g' k \<noteq> []"
    and "(\<forall>k. node_key p label name = Some k \<longrightarrow> name_match g k \<noteq> []) \<Longrightarrow> g' = g"
  proof (atomize (full), cases "node_key p label name")
    case None
    then have "g' = g" using assms
      by (auto simp: create_node_def node_key_def split: option.splits)
    with None show "extends g g'
      \<and> (\<forall>k. node_key p label name = Some k \<longrightarrow> name_match g' k \<noteq> [])
      \<and> ((\<forall>k. node_key p label name = Some k \<longrightarrow> name_match g k \<noteq> []) \<longrightarrow> g' = g)"
      by (simp add: extends_refl)
  next
    case (Some k)
    then obtain l where l: "graph_rejects p (MergeNode label name) = None"
      "label_text label = Some l" "k = (l, name)"
      by (auto simp: node_key_def split: option.splits)
    with assms have g': "g' = fst (merge_pattern g l [(''name'', name)])"
      by (simp add: create_node_def merge_node_plain)
    obtain ms where mp: "merge_pattern g l [(''name'', name)] = (g', ms)"
      using g' by (cases "merge_pattern g l [(''name'', name)]") simp
    note m = merge_pattern_name[OF mp]
    from m Some l(3) show "extends g g'
      \<and> (\<forall>k. node_key p label name = Some k \<longrightarrow> name_match g' k \<noteq> [])
      \<and> ((\<forall>k. node_key p label name = Some k \<longrightarrow> name_match g k \<noteq> []) \<longrightarrow> g' = g)"
      by simp
  qed
qed

lemma rel_key_Some:
  assumes "rel_key p t = Some (kf, rt, kt)"
  obtains rp where "graph_rejects p (MergeRelationship t) = None"
    and "label_text (subject_type t) = Some (fst kf)" and "snd kf = subject t"
    and "label_text (object_type t) = Some (fst kt)" and "snd kt = object t"
    and "label_text (predicate t) = Some rt" and "rel_props_arg (properties t) = Inr rp"
  using assms by (auto simp: rel_key_def split: option.splits sum.splits)

lemma create_relationship_none:
  "rel_key p t = None \<Longrightarrow> fst (create_relationship p g t) = g"
  by (auto simp: rel_key_def create_relationship_def split: option.splits sum.splits)

lemma create_relationship_some:
  assumes "rel_key p t = Some (kf, rt, kt)"
  obtains rp where "fst (create_relationship p g t)
      = merge_relationship g (fst kf) [(''name'', snd kf)] (fst kt) [(''name'', snd kt)] rt rp"
proof -
  from assms obtain rp where "graph_rejects p (MergeRelationship t) = None"
    and "label_text (subject_type t) = Some (fst kf)" and "snd kf = subject t"
    and "label_text (object_type t) = Some (fst kt)" and "snd kt = object t"
    and "label_text (predicate t) = Some rt" and "rel_props_arg (properties t) = Inr rp"
    by (rule rel_key_Some)
  then have "fst (create_relationship p g t)
      = merge_relationship g (fst kf) [(''name'', snd kf)] (fst kt) [(''name'', snd kt)] rt rp"
    by (simp add: create_relationship_def)
  then show ?thesis by (rule that)
qed

lemma merge_relationship_name:
  fixes kf kt :: "string \<times> json"
  defines "r \<equiv> \<lambda>g rt rp. merge_relationship g (fst kf) [(''name'', snd kf)] (fst kt) [(''name'', snd kt)] rt rp"
  shows "extends g (r g rt rp)"
    and "name_match (r g rt rp) kf \<noteq> []" and "name_match (r g rt rp) kt \<noteq> []"
    and "\<forall>a\<in>set (name_match (r g rt rp) kf). \<forall>b\<in>set (name_match (r g rt rp) kt).
           (a, rt, b) \<in> set (edge_keys (r g rt rp))"
    and "name_match g kf \<noteq> [] \<Longrightarrow> name_match g kt \<noteq> [] \<Longrightarrow>
         \<forall>a\<in>set (name_match g kf). \<forall>b\<in>set (name_match g kt). (a, rt, b) \<in> set (edge_keys g) \<Longrightarrow>
         nodes (r g rt rp) = nodes g \<and> edge_keys (r g rt rp) = edge_keys g"
proof -
  obtain g1 as where 1: "merge_pattern g (fst kf) [(''name'', snd kf)] = (g1, as)"
    by (cases "merge_pattern g (fst kf) [(''name'', snd kf)]")
  obtain g2 bs where 2: "merge_pattern g1 (fst kt) [(''name'', snd kt)] = (g2, bs)"
    by (cases "merge_pattern g1 (fst kt) [(''name'', snd kt)]")
  note f = merge_relationship_facts[OF 1 2]
  have n: "nodes (r g rt rp) = nodes g2" unfolding r_def by (rule f(1))
  have k: "edge_keys (r g rt rp)
             = fold (\<lambda>ab. ins_key (fst ab, rt, snd ab)) (List.product as bs) (edge_keys g)"
    unfolding r_def by (rule f(2))
  have bs: "name_match (r g rt rp) kt = bs"
    unfolding r_def name_match_def by (rule f(5))
  have as: "name_match (r g rt rp) kf = as"
    unfolding r_def name_match_def by (rule f(7)) simp
  have e12: "extends g g2"
    using merge_pattern_name(1)[of g "fst kf" "snd kf", unfolded prod.collapse, OF 1]
      merge_pattern_name(1)[of g1 "fst kt" "snd kt", OF 2]
    by (rule extends_trans)
  have ek2: "edge_keys g2 = edge_keys g"
    using merge_pattern_match(3)[OF 1] merge_pattern_match(3)[OF 2] by (simp add: edge_keys_def)
  have "extends g2 (r g rt rp)"
    by (rule extends_cong[OF n]) (simp add: k ek2 set_fold_ins)
  with e12 show "extends g (r g rt rp)" by (rule extends_trans)
  show "name_match (r g rt rp) kf \<noteq> []" using as f(3) by simp
  show "name_match (r g rt rp) kt \<noteq> []" using bs f(4) by simp
  show "\<forall>a\<in>set (name_match (r g rt rp) kf). \<forall>b\<in>set (name_match (r g rt rp) kt).
           (a, rt, b) \<in> set (edge_keys (r g rt rp))"
  proof (intro ballI)
    fix a b assume "a \<in> set (name_match (r g rt rp) kf)" "b \<in> set (name_match (r g rt rp) kt)"
    then have "(a, b) \<in> set (List.product as bs)" using as bs by simp
    then have "(fst (a, b), rt, snd (a, b)) \<in> (\<lambda>ab. (fst ab, rt, snd ab)) ` set (List.product as bs)"
      by (rule imageI)
    then show "(a, rt, b) \<in> set (edge_keys (r g rt rp))"
      unfolding k set_fold_ins by simp
  qed
  show "nodes (r g rt rp) = nodes g \<and> edge_keys (r g rt rp) = edge_keys g"
    if pf: "name_match g kf \<noteq> []" and pt: "name_match g kt \<noteq> []"
      and ed: "\<forall>a\<in>set (name_match g kf). \<forall>b\<in>set (name_match g kt). (a, rt, b) \<in> set (edge_keys g)"
  proof -
    have "merge_pattern g (fst kf) [(''name'', snd kf)] = (g, name_match g kf)"
      using pf unfolding name_match_def by (rule merge_pattern_present)
    then have "(g1, as) = (g, name_match g kf)" unfolding 1 .
    then have g1: "g1 = g" and as': "as = name_match g kf" by blast+
    have "merge_pattern g (fst kt) [(''name'', snd kt)] = (g, name_match g kt)"
      using pt unfolding name_match_def by (rule merge_pattern_present)
    then have "(g2, bs) = (g, name_match g kt)" using 2 unfolding g1 by metis
    then have g2: "g2 = g" and bs': "bs = name_match g kt" by blast+
    have "(\<lambda>ab. (fst ab, rt, snd ab)) ` set (List.product as bs) \<subseteq> set (edge_keys g)"
    proof
      fix x assume "x \<in> (\<lambda>ab. (fst ab, rt, snd ab)) ` set (List.product as bs)"
      then obtain a b where "a \<in> set as" "b \<in> set bs" "x = (a, rt, b)" by auto
      with ed as' bs' show "x \<in> set (edge_keys g)" by simp
    qed
    then have "fold (\<lambda>ab. ins_key (fst ab, rt, snd ab)) (List.product as bs) (edge_keys g) = edge_keys g"
      by (rule fold_ins_id)
    with n k g2 show ?thesis by simp
  qed
qed

lemma extends_present:
  "extends g g' \<Longrightarrow> name_match g k \<noteq> [] \<Longrightarrow> name_match g' k \<noteq> []"
  using extendsD by fastforce

lemma mergedI:
  assumes "\<And>k. node_key p (subject_type t) (subject t) = Some k \<Longrightarrow> name_match g k \<noteq> []"
    and "\<And>k. node_key p (object_type t) (object t) = Some k \<Longrightarrow> name_match g k \<noteq> []"
    and "\<And>kf rt kt. rel_key p t = Some (kf, rt, kt) \<Longrightarrow>
            name_match g kf \<noteq> [] \<and> name_match g kt \<noteq> []
            \<and> (\<forall>a\<in>set (name_match g kf). \<forall>b\<in>set (name_match g kt). (a, rt, b) \<in> set (edge_keys g))"
  shows "merged p t g"
  unfolding merged_def using assms by blast

lemma merged_subject:
  "merged p t g \<Longrightarrow> node_key p (subject_type t) (subject t) = Some k \<Longrightarrow> name_match g k \<noteq> []"
  unfolding merged_def by blast

lemma merged_object:
  "merged p t g \<Longrightarrow> node_key p (object_type t) (object t) = Some k \<Longrightarrow> name_match g k \<noteq> []"
  unfolding merged_def by blast

lemma merged_rel:
  "merged p t g \<Longrightarrow> rel_key p t = Some (kf, rt, kt) \<Longrightarrow>
     name_match g kf \<noteq> [] \<and> name_match g kt \<noteq> []
     \<and> (\<forall>a\<in>set (name_match g kf). \<forall>b\<in>set (name_match g kt). (a, rt, b) \<in> set (edge_keys g))"
  unfolding merged_def by blast

lemma merged_extends:
  assumes m: "merged p t g" and e: "extends g g'"
  shows "merged p t g'"
proof (rule mergedI)
  fix k assume "node_key p (subject_type t) (subject t) = Some k"
  with m have "name_match g k \<noteq> []" by (rule merged_subject)
  with e show "name_match g' k \<noteq> []" by (rule extends_present)
next
  fix k assume "node_key p (object_type t) (object t) = Some k"
  with m have "name_match g k \<noteq> []" by (rule merged_object)
  with e show "name_match g' k \<noteq> []" by (rule extends_present)
next
  fix kf rt kt assume "rel_key p t = Some (kf, rt, kt)"
  with m have r: "name_match g kf \<noteq> []" "name_match g kt \<noteq> []"
    "\<forall>a\<in>set (name_match g kf). \<forall>b\<in>set (name_match g kt). (a, rt, b) \<in> set (edge_keys g)"
    using merged_rel by blast+
  have kf: "name_match g' kf = name_match g kf" using e r(1) by (rule extendsD)
  have kt: "name_match g' kt = name_match g kt" using e r(2) by (rule extendsD)
  from r extends_edges[OF e] show "name_match g' kf \<noteq> [] \<and> name_match g' kt \<noteq> []
     \<and> (\<forall>a\<in>set (name_match g' kf). \<forall>b\<in>set (name_match g' kt). (a, rt, b) \<in> set (edge_keys g'))"
    unfolding kf kt by blast
qed

lemma merged_cong:
  assumes n: "nodes h = nodes g" and k: "edge_keys h = edge_keys g" and m: "merged p t g"
  shows "merged p t h"
proof -
  have "extends g h" using n by (rule extends_cong) (simp add: k)
  with m show ?thesis by (rule merged_extends)
qed

lemma triple_graph_merged:
  "extends g (triple_graph p t g) \<and> merged p t (triple_graph p t g)"
proof -
  obtain g1 ok1 where 1: "create_node p g (subject_type t) (subject t) = (g1, ok1)"
    by (cases "create_node p g (subject_type t) (subject t)")
  obtain g2 ok2 where 2: "create_node p g1 (object_type t) (object t) = (g2, ok2)"
    by (cases "create_node p g1 (object_type t) (object t)")
  let ?g3 = "fst (create_relationship p g2 t)"
  have tg: "triple_graph p t g = ?g3" by (simp add: triple_graph_def 1 2)
  note c1 = create_node_graph[OF 1]
  note c2 = create_node_graph[OF 2]
  have e23: "extends g2 ?g3"
    and rel: "\<And>kf rt kt. rel_key p t = Some (kf, rt, kt) \<Longrightarrow>
            name_match ?g3 kf \<noteq> [] \<and> name_match ?g3 kt \<noteq> []
            \<and> (\<forall>a\<in>set (name_match ?g3 kf). \<forall>b\<in>set (name_match ?g3 kt). (a, rt, b) \<in> set (edge_keys ?g3))"
  proof -
    show "extends g2 ?g3"
    proof (cases "rel_key p t")
      case None
      then show ?thesis by (simp add: create_relationship_none extends_refl)
    next
      case (Some x)
      obtain kf rt kt where x: "x = (kf, rt, kt)" by (cases x)
      from Some x obtain rp where "?g3
          = merge_relationship g2 (fst kf) [(''name'', snd kf)] (fst kt) [(''name'', snd kt)] rt rp"
        using create_relationship_some[of p t kf rt kt g2] by blast
      then show ?thesis using merge_relationship_name(1)[of g2 kf kt rt rp] by simp
    qed
    fix kf rt kt assume "rel_key p t = Some (kf, rt, kt)"
    then obtain rp where g3: "?g3
          = merge_relationship g2 (fst kf) [(''name'', snd kf)] (fst kt) [(''name'', snd kt)] rt rp"
      using create_relationship_some[of p t kf rt kt g2] by blast
    show "name_match ?g3 kf \<noteq> [] \<and> name_match ?g3 kt \<noteq> []
            \<and> (\<forall>a\<in>set (name_match ?g3 kf). \<forall>b\<in>set (name_match ?g3 kt). (a, rt, b) \<in> set (edge_keys ?g3))"
      unfolding g3
      using merge_relationship_name(2)[of g2 kf kt rt rp]
        merge_relationship_name(3)[of g2 kf kt rt rp]
        merge_relationship_name(4)[of g2 kf kt rt rp]
      by blast
  qed
  have e13: "extends g1 ?g3" using c2(1) e23 by (rule extends_trans)
  have e03: "extends g ?g3" using c1(1) e13 by (rule extends_trans)
  have "merged p t ?g3"
  proof (rule mergedI)
    fix k assume "node_key p (subject_type t) (subject t) = Some k"
    with c1(2) have "name_match g1 k \<noteq> []" by blast
    with e13 show "name_match ?g3 k \<noteq> []" by (rule extends_present)
  next
    fix k assume "node_key p (object_type t) (object t) = Some k"
    with c2(2) have "name_match g2 k \<noteq> []" by blast
    with e23 show "name_match ?g3 k \<noteq> []" by (rule extends_present)
  next
    fix kf rt kt assume "rel_key p t = Some (kf, rt, kt)"
    then show "name_match ?g3 kf \<noteq> [] \<and> name_match ?g3 kt \<noteq> []
            \<and> (\<forall>a\<in>set (name_match ?g3 kf). \<forall>b\<in>set (name_match ?g3 kt). (a, rt, b) \<in> set (edge_keys ?g3))"
      by (rule rel)
  qed
  with e03 show ?thesis unfolding tg by blast
qed

lemma triple_graph_quiet:
  assumes m: "merged p t g"
  shows "nodes (triple_graph p t g) = nodes g \<and> edge_keys (triple_graph p t g) = edge_keys g"
proof -
  obtain g1 ok1 where 1: "create_node p g (subject_type t) (subject t) = (g1, ok1)"
    by (cases "create_node p g (subject_type t) (subject t)")
  have g1: "g1 = g"
    by (rule create_node_graph(3)[OF 1]) (use m merged_subject in blast)
  obtain g2 ok2 where 2: "create_node p g (object_type t) (object t) = (g2, ok2)"
    by (cases "create_node p g (object_type t) (object t)")
  have g2: "g2 = g"
    by (rule create_node_graph(3)[OF 2]) (use m merged_object in blast)
  have tg: "triple_graph p t g = fst (create_relationship p g t)"
    using 1 2 g1 g2 by (simp add: triple_graph_def)
  show ?thesis
  proof (cases "rel_key p t")
    case None
    then show ?thesis unfolding tg by (simp add: create_relationship_none)
  next
    case (Some x)
    obtain kf rt kt where x: "x = (kf, rt, kt)" by (cases x)
    from Some x obtain rp where g3: "fst (create_relationship p g t)
          = merge_relationship g (fst kf) [(''name'', snd kf)] (fst kt) [(''name'', snd kt)] rt rp"
      using create_relationship_some[of p t kf rt kt g] by blast
    from m Some x have r: "name_match g kf \<noteq> []" "name_match g kt \<noteq> []"
      "\<forall>a\<in>set (name_match g kf). \<forall>b\<in>set (name_match g kt). (a, rt, b) \<in> set (edge_keys g)"
      using merged_rel by blast+
    show ?thesis unfolding tg g3
      by (rule merge_relationship_name(5)[OF r])
  qed
qed

lemma fold_triple_graph_merged:
  "extends g (fold (triple_graph p) ts g) \<and> (\<forall>t\<in>set ts. merged p t (fold (triple_graph p) ts g))"
proof (induction ts arbitrary: g)
  case Nil
  show ?case by (simp add: extends_refl)
next
  case (Cons t ts)
  let ?g1 = "triple_graph p t g"
  let ?g' = "fold (triple_graph p) ts ?g1"
  note ih = Cons.IH[of ?g1]
  note tm = triple_graph_merged[of g p t]
  have e: "extends g ?g'" using tm ih extends_trans by blast
  have "merged p t ?g'" using tm ih merged_extends by blast
  with e ih show ?case by simp
qed

lemma fold_triple_graph_quiet:
  "\<forall>t\<in>set ts. merged p t h \<Longrightarrow>
     nodes (fold (triple_graph p) ts h) = nodes h \<and> edge_keys (fold (triple_graph p) ts h) = edge_keys h"
proof (induction ts arbitrary: h)
  case Nil
  show ?case by simp
next
  case (Cons t ts)
  let ?h1 = "triple_graph p t h"
  from Cons.prems have "merged p t h" by simp
  then have q: "nodes ?h1 = nodes h" "edge_keys ?h1 = edge_keys h"
    using triple_graph_quiet by blast+
  have "\<forall>u\<in>set ts. merged p u ?h1"
  proof
    fix u assume "u \<in> set ts"
    with Cons.prems have "merged p u h" by simp
    with q show "merged p u ?h1" by (rule merged_cong)
  qed
  from Cons.IH[OF this] q show ?case by simp
qed

lemma fst_ingest_triple: "fst (ingest_triple p t gr) = triple_graph p t (fst gr)"
  by (simp add: ingest_triple_def triple_graph_def Let_def split: prod.splits)

lemma fst_fold_ingest_triple:
  "fst (fold (ingest_triple p) ts gr) = fold (triple_graph p) ts (fst gr)"
  by (induction ts arbitrary: gr) (simp_all add: fst_ingest_triple)

lemma reingest_graph:
  "nodes (fold (triple_graph p) ts (fold (triple_graph p) ts g)) = nodes (fold (triple_graph p) ts g)
   \<and> edge_keys (fold (triple_graph p) ts (fold (triple_graph p) ts g))
       = edge_keys (fold (triple_graph p) ts g)"
  by (rule fold_triple_graph_quiet) (use fold_triple_graph_merged in blast)

subsection \<open>Ingesting the same text again\<close>

lemma graph_step_graph:
  assumes "graph_step p ts (g, r) = Inr (g', r')"
  shows "g' = fold (triple_graph p) ts g"
  using graph_step_result[OF assms] by (simp add: fst_fold_ingest_triple)

lemma graph_step_returns:
  assumes "graph_step p ts gr = Inr x"
  shows "\<exists>y. graph_step p ts gr' = Inr y"
proof (cases "ts = [] \<or> graph_manager_given p")
  case True
  then show ?thesis by (auto simp: graph_step_def)
next
  case False
  with assms have "connect_error p = None"
    by (cases "connect_error p") (auto simp: graph_step_def)
  with False show ?thesis
    by (cases "close_error p") (auto simp: graph_step_def Let_def)
qed

lemma collection_add_ids:
  assumes a: "collection_add pol c e = Inr c'"
  shows "fst e \<in> set (map fst c')
     \<and> map fst c' = (if fst e \<in> set (map fst c) then map fst c else map fst c @ [fst e])"
proof (cases "fst e \<in> set (map fst c)")
  case True
  have m: "map fst (map (\<lambda>x. if fst x = fst e then e else x) c) = map fst c"
    by (induction c) simp_all
  have "map fst c' = map fst c"
  proof (cases pol)
    case Ignore
    with a True have "c' = c" by (simp add: collection_add_def)
    then show ?thesis by simp
  next
    case Overwrite
    with a True have "c' = map (\<lambda>x. if fst x = fst e then e else x) c"
      by (simp add: collection_add_def)
    then show ?thesis using m by simp
  next
    case Reject
    with a True show ?thesis by (simp add: collection_add_def)
  qed
  with True show ?thesis by simp
next
  case False
  with a have "c' = c @ [e]" by (simp add: collection_add_def)
  with False show ?thesis by simp
qed

lemma collection_add_fails: "collection_add pol c e = Inl x \<Longrightarrow> fst e \<in> set (map fst c)"
  by (cases pol) (auto simp: collection_add_def split: if_splits)

lemma vector_step_outcome:
  "vector_step p text metadata (c, r) =
     (case add_outcome p text metadata c of
        Inr coll \<Rightarrow> (coll, r\<lparr>documents_added := 1\<rparr>)
      | Inl e \<Rightarrow> (c, r\<lparr>errors := errors r @ [''Vector database error: '' @ exn_str e]\<rparr>))"
  unfolding add_outcome_def
  by (cases "vector_error p") (simp_all add: vector_step_def cong: sum.case_cong)

lemma vector_step_ids:
  assumes "vector_step p text metadata (c, r) = (c', r')"
  shows "(vector_error p = None \<longrightarrow> generate_doc_id p text \<in> set (map fst c'))
         \<and> (vector_error p \<noteq> None \<longrightarrow> c' = c)
         \<and> (documents_added r = 0 \<and> documents_added r' = 1 \<and> c = [] \<longrightarrow>
              map fst c' = [generate_doc_id p text])"
proof (cases "vector_error p")
  case (Some e)
  with assms have "c' = c" and "documents_added r' = documents_added r"
    by (auto simp: vector_step_outcome add_outcome_def)
  with Some show ?thesis by simp
next
  case None
  let ?e = "(generate_doc_id p text, text, set_props [(''source'', JStr ''ingestion'')] metadata)"
  have o: "add_outcome p text metadata c = collection_add (add_policy p) c ?e"
    using None by (simp add: add_outcome_def)
  show ?thesis
  proof (cases "collection_add (add_policy p) c ?e")
    case (Inl x)
    from collection_add_fails[OF Inl] have "generate_doc_id p text \<in> set (map fst c)" by simp
    moreover from assms Inl o have "c' = c" and "documents_added r' = documents_added r"
      by (auto simp: vector_step_outcome)
    ultimately show ?thesis using None by auto
  next
    case (Inr coll)
    from assms Inr o have "c' = coll" by (simp add: vector_step_outcome)
    with collection_add_ids[OF Inr] None show ?thesis by auto
  qed
qed

lemma vector_step_again:
  assumes "vector_error p = None \<longrightarrow> generate_doc_id p text \<in> set (map fst c)"
    and "vector_step p text metadata (c, r) = (c', r')"
  shows "map fst c' = map fst c"
proof (cases "vector_error p")
  case (Some e)
  with assms(2) show ?thesis by (simp add: vector_step_outcome add_outcome_def)
next
  case None
  let ?e = "(generate_doc_id p text, text, set_props [(''source'', JStr ''ingestion'')] metadata)"
  have o: "add_outcome p text metadata c = collection_add (add_policy p) c ?e"
    using None by (simp add: add_outcome_def)
  from assms(1) None have i: "fst ?e \<in> set (map fst c)" by simp
  show ?thesis
  proof (cases "collection_add (add_policy p) c ?e")
    case (Inl x)
    with assms(2) o show ?thesis by (simp add: vector_step_outcome)
  next
    case (Inr coll)
    from assms(2) Inr o have "c' = coll" by (simp add: vector_step_outcome)
    with collection_add_ids[OF Inr] i show ?thesis by simp
  qed
qed

lemma ingest_text_unfold:
  assumes "ingest_text p text metadata s = Inr (r, s')"
  obtains r1 r2 where
    "graph_step p (triples (extractor p text)) (graph_store s, r1) = Inr (graph_store s', r2)"
    and "vector_step p text metadata (vector_store s, r2) = (vector_store s', r)"
    and "documents_added r1 = 0"
proof -
  let ?r0 = "\<lparr>success = True, nodes_created = 0, relationships_created = 0,
              documents_added = 0, errors = []\<rparr>"
  let ?ex = "extractor p text"
  let ?r1 = "(case error ?ex of None \<Rightarrow> ?r0
             | Some e \<Rightarrow> if e = [] then ?r0 else ?r0\<lparr>errors := errors ?r0 @ [e]\<rparr>)"
  have d: "documents_added ?r1 = 0" by (cases "error ?ex") simp_all
  from assms obtain g r2 where gs: "graph_step p (triples ?ex) (graph_store s, ?r1) = Inr (g, r2)"
    by (cases "graph_step p (triples ?ex) (graph_store s, ?r1)")
       (auto simp: ingest_text_def Let_def)
  obtain c r3 where vs: "vector_step p text metadata (vector_store s, r2) = (c, r3)"
    by (cases "vector_step p text metadata (vector_store s, r2)")
  from assms gs vs have "r = r3" "s' = \<lparr>graph_store = g, vector_store = c\<rparr>"
    by (simp_all add: ingest_text_def Let_def)
  with gs vs d that[of ?r1 r2] show ?thesis by simp
qed

lemma ingest_text_returns:
  assumes "ingest_text p text metadata s = Inr x"
  shows "\<exists>y. ingest_text p text metadata' s' = Inr y"
proof -
  let ?r0 = "\<lparr>success = True, nodes_created = 0, relationships_created = 0,
              documents_added = 0, errors = []\<rparr>"
  let ?ex = "extractor p text"
  let ?r1 = "(case error ?ex of None \<Rightarrow> ?r0
             | Some e \<Rightarrow> if e = [] then ?r0 else ?r0\<lparr>errors := errors ?r0 @ [e]\<rparr>)"
  from assms obtain z where "graph_step p (triples ?ex) (graph_store s, ?r1) = Inr z"
    by (cases "graph_step p (triples ?ex) (graph_store s, ?r1)")
       (auto simp: ingest_text_def Let_def)
  from graph_step_returns[OF this] obtain y
    where "graph_step p (triples ?ex) (graph_store s', ?r1) = Inr y" by blast
  then show ?thesis
    by (cases y) (simp add: ingest_text_def Let_def split: prod.splits)
qed

text \<open>
  Claim C1: the document id is a function of the text alone (the digest of the text, cut to
  twelve digits), so both calls address the same entry. For an extractor that answers the
  same for the same text and stores that fail the same way for the same request, a second
  \<^verbatim>\<open>ingest_text\<close> of a text returns, leaves the nodes and the relationships of the graph as
  the first left them (the counts are equal), and leaves the ids of the collection as they
  were, whatever the collection does with an id it already holds and whatever metadata the
  second call passes. From an empty collection and a first call that stored its document,
  the collection holds exactly one document, under the id of the text, after both calls.
\<close>

theorem reingest_same_text:
  assumes "ingest_text p text metadata s0 = Inr (r1, s1)"
  shows "\<exists>r2 s2. ingest_text p text metadata' s1 = Inr (r2, s2)
           \<and> node_count (graph_store s2) = node_count (graph_store s1)
           \<and> edge_count (graph_store s2) = edge_count (graph_store s1)
           \<and> nodes (graph_store s2) = nodes (graph_store s1)
           \<and> edge_keys (graph_store s2) = edge_keys (graph_store s1)
           \<and> map fst (vector_store s2) = map fst (vector_store s1)
           \<and> get_document_count (vector_store s2) = get_document_count (vector_store s1)
           \<and> (vector_store s0 = [] \<and> documents_added r1 = 1 \<longrightarrow>
                map fst (vector_store s2) = [generate_doc_id p text]
                \<and> get_document_count (vector_store s2) = 1)"
proof -
  let ?ts = "triples (extractor p text)"
  from ingest_text_returns[OF assms] obtain y where "ingest_text p text metadata' s1 = Inr y"
    by blast
  then obtain r2 s2 where 2: "ingest_text p text metadata' s1 = Inr (r2, s2)" by (cases y) simp
  from assms obtain a1 a2 where
    g1: "graph_step p ?ts (graph_store s0, a1) = Inr (graph_store s1, a2)"
    and v1: "vector_step p text metadata (vector_store s0, a2) = (vector_store s1, r1)"
    and d1: "documents_added a1 = 0"
    by (rule ingest_text_unfold)
  from 2 obtain b1 b2 where
    g2: "graph_step p ?ts (graph_store s1, b1) = Inr (graph_store s2, b2)"
    and v2: "vector_step p text metadata' (vector_store s1, b2) = (vector_store s2, r2)"
    by (rule ingest_text_unfold)
  have G1: "graph_store s1 = fold (triple_graph p) ?ts (graph_store s0)"
    by (rule graph_step_graph[OF g1])
  have G2: "graph_store s2 = fold (triple_graph p) ?ts (graph_store s1)"
    by (rule graph_step_graph[OF g2])
  have n: "nodes (graph_store s2) = nodes (graph_store s1)"
    and k: "edge_keys (graph_store s2) = edge_keys (graph_store s1)"
    unfolding G2 unfolding G1 using reingest_graph by blast+
  have ec: "edge_count (graph_store s2) = edge_count (graph_store s1)"
  proof -
    have "length (edges (graph_store s2)) = length (edges (graph_store s1))"
      using k unfolding edge_keys_def by (metis length_map)
    then show ?thesis by (simp add: edge_count_def)
  qed
  have da: "documents_added a2 = 0"
    using graph_step_result[OF g1] d1 by simp
  note i1 = vector_step_ids[OF v1]
  have ids: "map fst (vector_store s2) = map fst (vector_store s1)"
    by (rule vector_step_again[OF _ v2]) (use i1 in blast)
  have cnt: "get_document_count (vector_store s2) = get_document_count (vector_store s1)"
  proof -
    have "length (vector_store s2) = length (vector_store s1)"
      using ids by (metis length_map)
    then show ?thesis by (simp add: get_document_count_def)
  qed
  have one: "map fst (vector_store s2) = [generate_doc_id p text]
             \<and> get_document_count (vector_store s2) = 1"
    if "vector_store s0 = [] \<and> documents_added r1 = 1"
  proof -
    from i1 that da have "map fst (vector_store s1) = [generate_doc_id p text]" by blast
    with ids have m: "map fst (vector_store s2) = [generate_doc_id p text]" by simp
    then have "length (vector_store s2) = length [generate_doc_id p text]"
      by (metis length_map)
    with m show ?thesis by (simp add: get_document_count_def)
  qed
  have nc: "node_count (graph_store s2) = node_count (graph_store s1)"
    by (simp add: node_count_def n)
  have one': "vector_store s0 = [] \<and> documents_added r1 = 1 \<longrightarrow>
                map fst (vector_store s2) = [generate_doc_id p text]
                \<and> get_document_count (vector_store s2) = 1"
    by (rule impI) (rule one)
  show ?thesis
    by (rule exI[of _ r2], rule exI[of _ s2]) (intro conjI 2 nc ec n k ids cnt one')
qed


theorem reingest_same_text_witness:
  "ingest_text healthy_pipeline ''TechFlow manufactures FlowChips'' [] empty_stores
     = Inr (\<lparr>success = True, nodes_created = 2, relationships_created = 1,
             documents_added = 1, errors = []\<rparr>,
            \<lparr>graph_store =
               \<lparr>nodes = [\<lparr>node_id = 1, labels = [''Company''],
                           node_props = [(''name'', JStr ''techflow'')]\<rparr>,
                          \<lparr>node_id = 2, labels = [''Product''],
                           node_props = [(''name'', JStr ''flowchips'')]\<rparr>],
                edges = [\<lparr>src = 1, dst = 2, rel_type = ''MANUFACTURES'', rel_props = []\<rparr>]\<rparr>,
             vector_store = [(''doc_5d41402abc4b'', ''TechFlow manufactures FlowChips'',
                              [(''source'', JStr ''ingestion'')])]\<rparr>)
   \<and> (\<exists>r2 s2.
         ingest_text healthy_pipeline ''TechFlow manufactures FlowChips'' [(''line_number'', JNum 1)]
           \<lparr>graph_store =
               \<lparr>nodes = [\<lparr>node_id = 1, labels = [''Company''],
                           node_props = [(''name'', JStr ''techflow'')]\<rparr>,
                          \<lparr>node_id = 2, labels = [''Product''],
                           node_props = [(''name'', JStr ''flowchips'')]\<rparr>],
                edges = [\<lparr>src = 1, dst = 2, rel_type = ''MANUFACTURES'', rel_props = []\<rparr>]\<rparr>,
             vector_store = [(''doc_5d41402abc4b'', ''TechFlow manufactures FlowChips'',
                              [(''source'', JStr ''ingestion'')])]\<rparr>
           = Inr (r2, s2)
         \<and> node_count (graph_store s2) = 2 \<and> edge_count (graph_store s2) = 1
         \<and> map fst (vector_store s2) = [''doc_5d41402abc4b'']
         \<and> get_document_count (vector_store s2) = 1)"
proof -
  let ?s1 = "\<lparr>graph_store =
               \<lparr>nodes = [\<lparr>node_id = 1, labels = [''Company''],
                           node_props = [(''name'', JStr ''techflow'')]\<rparr>,
                          \<lparr>node_id = 2, labels = [''Product''],
                           node_props = [(''name'', JStr ''flowchips'')]\<rparr>],
                edges = [\<lparr>src = 1, dst = 2, rel_type = ''MANUFACTURES'', rel_props = []\<rparr>]\<rparr>,
             vector_store = [(''doc_5d41402abc4b'', ''TechFlow manufactures FlowChips'',
                              [(''source'', JStr ''ingestion'')])]\<rparr>"
  have h: "ingest_text healthy_pipeline ''TechFlow manufactures FlowChips'' [] empty_stores
     = Inr (\<lparr>success = True, nodes_created = 2, relationships_created = 1,
             documents_added = 1, errors = []\<rparr>, ?s1)"
    by code_simp
  have e: "vector_store empty_stores = []" by (simp add: empty_stores_def)
  have d: "generate_doc_id healthy_pipeline ''TechFlow manufactures FlowChips'' = ''doc_5d41402abc4b''"
    by code_simp
  from reingest_same_text[OF h, of "[(''line_number'', JNum 1)]"] e d
  obtain r2 s2 where
    "ingest_text healthy_pipeline ''TechFlow manufactures FlowChips'' [(''line_number'', JNum 1)] ?s1
       = Inr (r2, s2)"
    and "node_count (graph_store s2) = node_count (graph_store ?s1)"
    and "edge_count (graph_store s2) = edge_count (graph_store ?s1)"
    and "map fst (vector_store s2) = [''doc_5d41402abc4b'']"
    and "get_document_count (vector_store s2) = 1"
    by auto
  then have "ingest_text healthy_pipeline ''TechFlow manufactures FlowChips'' [(''line_number'', JNum 1)] ?s1
       = Inr (r2, s2)
       \<and> node_count (graph_store s2) = 2 \<and> edge_count (graph_store s2) = 1
       \<and> map fst (vector_store s2) = [''doc_5d41402abc4b'']
       \<and> get_document_count (vector_store s2) = 1"
    by (simp add: node_count_def edge_count_def)
  then have "\<exists>r2 s2. ingest_text healthy_pipeline ''TechFlow manufactures FlowChips'' [(''line_number'', JNum 1)] ?s1
       = Inr (r2, s2)
       \<and> node_count (graph_store s2) = 2 \<and> edge_count (graph_store s2) = 1
       \<and> map fst (vector_store s2) = [''doc_5d41402abc4b'']
       \<and> get_document_count (vector_store s2) = 1"
    by (intro exI)
  with h show ?thesis by (intro conjI)
qed


section \<open>Properties of the hybrid retriever\<close>

lemma collect_fails:
  "qs \<noteq> [] \<Longrightarrow> \<forall>q\<in>set qs. \<exists>e. q = Inl e \<Longrightarrow> \<exists>e. collect qs = Inl e"
  by (cases qs) auto

lemma graph_search_unreachable:
  assumes "\<And>a b n. \<exists>e. find_paths deps a b n = Inl e"
    and "\<And>a n. \<exists>e. find_neighbors deps a n = Inl e"
    and "es \<noteq> []"
  shows "\<exists>e. graph_search deps es = Inl e"
proof (cases es)
  case Nil
  with assms(3) show ?thesis by simp
next
  case (Cons x xs)
  show ?thesis
  proof (cases xs)
    case Nil
    with Cons assms(2)[of x 2] show ?thesis by (auto simp: graph_search_def)
  next
    case (Cons y ys)
    let ?qs = "map (\<lambda>ab. find_paths deps (fst ab) (snd ab) 3) (entity_pairs es)"
    have "?qs \<noteq> []" using \<open>es = x # xs\<close> Cons by simp
    moreover have "\<forall>q\<in>set ?qs. \<exists>e. q = Inl e" using assms(1) by auto
    ultimately obtain e where "collect ?qs = Inl e" using collect_fails by blast
    with \<open>es = x # xs\<close> Cons show ?thesis by (simp add: graph_search_def)
  qed
qed

text \<open>
  The caller of the retriever, as the source has it: when the call with the graph raises and
  the call without the graph returns, the page gets the second result and shows a warning.
\<close>

lemma main_retrieval_fallback:
  assumes "retrieve_fn prompt True = Inl e" and "retrieve_fn prompt False = Inr result"
  shows "main_retrieval retrieve_fn prompt True
           = Inr ([''Graph retrieval failed, using vector-only: '' @ exn_str e], result)"
  using assms by (simp add: main_retrieval_def)

text \<open>
  Claim C5: when every query of the graph store fails and the vector store returns chunks for
  the query, \<^verbatim>\<open>retrieve\<close> with the graph included returns a result, with no graph path, with
  the chunks of the vector store (so with at least one when the store returned one), and with
  a warning beside the result whenever an entity was found in the query, that is whenever the
  graph was queried at all.
\<close>

theorem retrieve_degraded:
  assumes "\<And>a b n. \<exists>e. find_paths deps a b n = Inl e"
    and "\<And>a n. \<exists>e. find_neighbors deps a n = Inl e"
    and "query_similar deps q 5 = Inr chunks" and "chunks \<noteq> []"
  shows "\<exists>warnings result.
           retrieve deps q True = Inr (warnings, result)
           \<and> graph_paths result = []
           \<and> vector_chunks result = chunks \<and> vector_chunks result \<noteq> []
           \<and> graph_context result = []
           \<and> (RetrievalResult.entities result \<noteq> [] \<longrightarrow> warnings \<noteq> [])"
proof -
  let ?es = "remdups (map normalize_entity_name (mentions deps q))"
  show ?thesis
  proof (cases "?es = []")
    case True
    then have "graph_search deps ?es = Inr []" by (simp add: graph_search_def)
    with assms(3,4) True show ?thesis by (simp add: retrieve_def Let_def)
  next
    case False
    from graph_search_unreachable[OF assms(1) assms(2) False]
    obtain e where "graph_search deps ?es = Inl e" by blast
    with assms(3,4) show ?thesis by (simp add: retrieve_def Let_def)
  qed
qed

theorem retrieve_degraded_witness:
  "\<exists>warnings result.
     retrieve unreachable_graph_deps ''Where does TechFlow operate?'' True = Inr (warnings, result)
     \<and> graph_paths result = []
     \<and> vector_chunks result = [''TechFlow operates a plant in Singapore.'']
     \<and> vector_chunks result \<noteq> []
     \<and> graph_context result = []
     \<and> warnings \<noteq> []"
proof -
  have "\<exists>warnings result.
          retrieve unreachable_graph_deps ''Where does TechFlow operate?'' True
            = Inr (warnings, result)
          \<and> graph_paths result = []
          \<and> vector_chunks result = [''TechFlow operates a plant in Singapore.'']
          \<and> vector_chunks result \<noteq> []
          \<and> graph_context result = []
          \<and> (RetrievalResult.entities result \<noteq> [] \<longrightarrow> warnings \<noteq> [])"
    by (rule retrieve_degraded) (simp_all add: unreachable_graph_deps_def)
  then obtain warnings result where r:
    "retrieve unreachable_graph_deps ''Where does TechFlow operate?'' True = Inr (warnings, result)"
    "graph_paths result = []"
    "vector_chunks result = [''TechFlow operates a plant in Singapore.'']"
    "graph_context result = []"
    "RetrievalResult.entities result \<noteq> [] \<longrightarrow> warnings \<noteq> []"
    by blast
  have "retrieve unreachable_graph_deps ''Where does TechFlow operate?'' True
          = Inr ([''graph traversal failed: ServiceUnavailable''],
                 \<lparr>query = ''Where does TechFlow operate?'',
                  entities = [''techflow'', ''singapore''],
                  vector_chunks = [''TechFlow operates a plant in Singapore.''],
                  graph_paths = [], graph_context = []\<rparr>)"
    by code_simp
  with r(1) have "RetrievalResult.entities result = [''techflow'', ''singapore'']" by auto
  with r(5) have "warnings \<noteq> []" by simp
  with r(1-4) show ?thesis by simp
qed

end
